theory Spec2Isabelle
  imports Complex_Main "HOL-Library.List_Lexorder" "HOL-Library.Char_ord"
    "HOL-Library.Product_Lexorder" "HOL-Library.AList" "HOL-Library.Monad_Syntax"
begin

section \<open>Python values used by \<^verbatim>\<open>bpm_data_comparer.py\<close>\<close>

text \<open>
  Text is modelled as \<^typ>\<open>string\<close>, one \<^typ>\<open>char\<close> per character: both file
  formats are ASCII text. Samples (numpy \<^verbatim>\<open>float64\<close>) are modelled as \<^typ>\<open>real\<close>:
  the rounding of binary64 arithmetic is not modelled, and no theorem below uses a law
  of real arithmetic on samples. A numpy array is a list, \<^verbatim>\<open>a.size\<close> its length.
\<close>

text \<open>The characters for which \<^verbatim>\<open>str.isspace()\<close> holds (also the regex class \<^verbatim>\<open>\s\<close>).\<close>

definition is_space :: "char \<Rightarrow> bool" where
  "is_space c \<longleftrightarrow>
     c \<in> set [CHR 0x09, CHR 0x0A, CHR 0x0B, CHR 0x0C, CHR 0x0D,
               CHR 0x1C, CHR 0x1D, CHR 0x1E, CHR 0x1F, CHR 0x20]"

text \<open>\<^verbatim>\<open>str.strip()\<close>, \<^verbatim>\<open>str.rstrip()\<close> and \<^verbatim>\<open>str.lower()\<close>.\<close>

definition rstrip :: "string \<Rightarrow> string" where
  "rstrip s = rev (dropWhile is_space (rev s))"

definition strip :: "string \<Rightarrow> string" where
  "strip s = rstrip (dropWhile is_space s)"

definition lower_char :: "char \<Rightarrow> char" where
  "lower_char c =
     (if CHR ''A'' \<le> c \<and> c \<le> CHR ''Z'' then char_of (of_char c + (32::nat)) else c)"

definition lower :: "string \<Rightarrow> string" where
  "lower s = map lower_char s"

text \<open>\<^verbatim>\<open>s.join(parts)\<close>.\<close>

fun join :: "string \<Rightarrow> string list \<Rightarrow> string" where
  "join s [] = []"
| "join s [p] = p"
| "join s (p # q # ps) = p @ s @ join s (q # ps)"

datatype error = ValueError string | KeyError string

section \<open>The Dataset\<close>

text \<open>
  \<^verbatim>\<open>Dict[str, Dict[str, np.ndarray]]\<close>: each BPM name has the three arrays
  \<^verbatim>\<open>"x"\<close>, \<^verbatim>\<open>"y"\<close>, \<^verbatim>\<open>"z"\<close>. The outer dict is an association list in
  insertion order; \<^const>\<open>AList.update\<close> is \<^verbatim>\<open>d[k] = v\<close>.
\<close>

record triple =
  x_arr :: "real list"
  y_arr :: "real list"
  z_arr :: "real list"

type_synonym dataset = "(string \<times> triple) list"

definition list_bpms :: "dataset \<Rightarrow> string list" where
  "list_bpms data = sort (map fst data)"

definition component :: "string \<Rightarrow> triple \<Rightarrow> real list" where
  "component sel t =
     (if sel = ''x'' then x_arr t else if sel = ''y'' then y_arr t else z_arr t)"

definition component_message :: string where
  "component_message = ''component must be 'x', 'y', or 'z'' @ [CHR 0x27]"

text \<open>\<^verbatim>\<open>BPMDataParen.get\<close>: a missing key is the \<^verbatim>\<open>KeyError(bpm)\<close> of the dict lookup.\<close>

definition BPMDataParen_get :: "dataset \<Rightarrow> string \<Rightarrow> string \<Rightarrow> error + real list" where
  "BPMDataParen_get data bpm cmp =
     (let sel = strip (lower cmp) in
      if sel \<notin> set [''x'', ''y'', ''z''] then
        Inl (ValueError component_message)
      else case map_of data bpm of
             None \<Rightarrow> Inl (KeyError bpm)
           | Some t \<Rightarrow> Inr (component sel t))"

text \<open>\<^verbatim>\<open>BPMDataSDDS.get\<close>: the key is checked first and the message lists the names.\<close>

definition not_found_message :: "dataset \<Rightarrow> string \<Rightarrow> string" where
  "not_found_message data bpm =
     ''BPM '' @ [CHR 0x27] @ bpm @ [CHR 0x27] @ '' not found. Available: ''
       @ join '', '' (list_bpms data)"

definition BPMDataSDDS_get :: "dataset \<Rightarrow> string \<Rightarrow> string \<Rightarrow> error + real list" where
  "BPMDataSDDS_get data bpm cmp =
     (let sel = strip (lower cmp) in
      if sel \<notin> set [''x'', ''y'', ''z''] then
        Inl (ValueError component_message)
      else if bpm \<notin> set (map fst data) then
        Inl (KeyError (not_found_message data bpm))
      else case map_of data bpm of
             None \<Rightarrow> Inl (KeyError bpm)
           | Some t \<Rightarrow> Inr (component sel t))"

section \<open>The row-format writer's normalisation\<close>

text \<open>
  \<^verbatim>\<open>normalize\<close> inside \<^verbatim>\<open>BPMDataParen.to_sdds\<close>. \<^verbatim>\<open>N\<close> is a Python int; the slice
  \<^verbatim>\<open>a[:N]\<close> with a negative \<^verbatim>\<open>N\<close> stops \<^verbatim>\<open>-N\<close> elements before the end.
\<close>

definition slice_to :: "'a list \<Rightarrow> int \<Rightarrow> 'a list" where
  "slice_to a N = (if 0 \<le> N then take (nat N) a else take (nat (int (length a) + N)) a)"

definition normalize_arr :: "real list \<Rightarrow> int \<Rightarrow> real list" where
  "normalize_arr a N =
     (if int (length a) > N then slice_to a N
      else if int (length a) < N then a @ replicate (nat (N - int (length a))) 0
      else a)"

section \<open>Numeric tokens\<close>

text \<open>
  \<^verbatim>\<open>_NUM_RE = [+-]?(?:\d*\.\d+|\d+)(?:[Ee][+-]?\d+)?\<close>. Each function below matches
  one piece of the pattern at the start of a string and returns what it matched with the
  rest of the string. Every repetition is greedy, and giving characters back never
  turns a failure into a success here (the character after a run of digits is not a
  digit), so the first match of the backtracking matcher is the one computed.
\<close>

definition is_digit :: "char \<Rightarrow> bool" where
  "is_digit c \<longleftrightarrow> CHR ''0'' \<le> c \<and> c \<le> CHR ''9''"

definition is_sign :: "char \<Rightarrow> bool" where
  "is_sign c \<longleftrightarrow> c = CHR ''+'' \<or> c = CHR ''-''"

text \<open>\<^verbatim>\<open>[+-]?\<close>\<close>

definition opt_sign :: "string \<Rightarrow> string \<times> string" where
  "opt_sign s = (case s of [] \<Rightarrow> ([], []) | c # r \<Rightarrow> if is_sign c then ([c], r) else ([], s))"

text \<open>\<^verbatim>\<open>\d+\<close>\<close>

definition digits1 :: "string \<Rightarrow> (string \<times> string) option" where
  "digits1 s =
     (if takeWhile is_digit s = [] then None
      else Some (takeWhile is_digit s, dropWhile is_digit s))"

text \<open>\<^verbatim>\<open>(?:\d*\.\d+|\d+)\<close>: the first alternative is tried first.\<close>

definition mantissa :: "string \<Rightarrow> (string \<times> string) option" where
  "mantissa s =
     (let d = takeWhile is_digit s; r = dropWhile is_digit s in
      case (case r of [] \<Rightarrow> None | c # r' \<Rightarrow> if c = CHR ''.'' then digits1 r' else None) of
        Some (f, r'') \<Rightarrow> Some (d @ ''.'' @ f, r'')
      | None \<Rightarrow> if d = [] then None else Some (d, r))"

text \<open>\<^verbatim>\<open>(?:[Ee][+-]?\d+)?\<close>\<close>

definition exponent :: "string \<Rightarrow> string \<times> string" where
  "exponent s =
     (case s of
        [] \<Rightarrow> ([], [])
      | c # r \<Rightarrow>
          if c = CHR ''E'' \<or> c = CHR ''e'' then
            (case digits1 (snd (opt_sign r)) of
               Some (d, r2) \<Rightarrow> (c # fst (opt_sign r) @ d, r2)
             | None \<Rightarrow> ([], s))
          else ([], s))"

definition num_match :: "string \<Rightarrow> (string \<times> string) option" where
  "num_match s =
     (case mantissa (snd (opt_sign s)) of
        None \<Rightarrow> None
      | Some (m, r1) \<Rightarrow> Some (fst (opt_sign s) @ m @ fst (exponent r1), snd (exponent r1)))"

text \<open>\<^verbatim>\<open>_NUM_RE.findall(s)\<close>: the matches from left to right, without overlap.\<close>

function findall :: "string \<Rightarrow> string list" where
  "findall s =
     (if s = [] then []
      else case num_match s of
             Some (tok, rest) \<Rightarrow> tok # findall rest
           | None \<Rightarrow> findall (tl s))"
  by pat_completeness auto
termination
proof (relation "measure length")
  show "wf (measure length)" by simp
next
  fix s :: string and x2 tok rest
  assume ne: "s \<noteq> []" and m: "num_match s = Some x2" and x2: "(tok, rest) = x2"
  have dw: "\<And>t :: string. length (dropWhile is_digit t) \<le> length t"
    by (simp add: length_dropWhile_le)
  have d1: "\<And>t d r. digits1 t = Some (d, r) \<Longrightarrow> length r < length t"
  proof -
    fix t d r assume "digits1 t = Some (d, r)"
    then have "takeWhile is_digit t \<noteq> []" and r: "r = dropWhile is_digit t"
      by (auto simp: digits1_def split: if_splits)
    then have "length (takeWhile is_digit t) > 0" by simp
    moreover have "length (takeWhile is_digit t) + length (dropWhile is_digit t) = length t"
      by (metis length_append takeWhile_dropWhile_id)
    ultimately show "length r < length t" unfolding r by linarith
  qed
  have os: "\<And>t :: string. length (snd (opt_sign t)) \<le> length t"
    by (simp add: opt_sign_def split: list.splits)
  have ma: "\<And>t m r. mantissa t = Some (m, r) \<Longrightarrow> length r < length t"
  proof -
    fix t m r assume h: "mantissa t = Some (m, r)"
    show "length r < length t"
    proof (cases "dropWhile is_digit t")
      case Nil
      with h show ?thesis
        by (auto simp: mantissa_def Let_def split: if_splits)
    next
      case (Cons c r')
      have le: "length (c # r') \<le> length t" using dw [of t] Cons by simp
      show ?thesis
      proof (cases "c = CHR ''.'' \<and> digits1 r' \<noteq> None")
        case True
        then obtain f r'' where f: "digits1 r' = Some (f, r'')" by auto
        with h Cons True have "r = r''" by (simp add: mantissa_def Let_def)
        with d1 [OF f] le show ?thesis by simp
      next
        case False
        with h Cons have "takeWhile is_digit t \<noteq> []" and "r = dropWhile is_digit t"
          by (auto simp: mantissa_def Let_def split: if_splits option.splits)
        moreover have "length (takeWhile is_digit t) + length (dropWhile is_digit t) = length t"
          by (metis length_append takeWhile_dropWhile_id)
        ultimately show ?thesis
          by (metis add.commute length_greater_0_conv less_add_same_cancel2)
      qed
    qed
  qed
  have ex: "\<And>t :: string. length (snd (exponent t)) \<le> length t"
  proof -
    fix t :: string
    show "length (snd (exponent t)) \<le> length t"
    proof (cases t)
      case Nil
      then show ?thesis by (simp add: exponent_def)
    next
      case (Cons c r)
      show ?thesis
      proof (cases "digits1 (snd (opt_sign r))")
        case None
        with Cons show ?thesis by (simp add: exponent_def)
      next
        case (Some p)
        obtain d r2 where p: "p = (d, r2)" by (cases p)
        from d1 [of "snd (opt_sign r)" d r2] Some p os [of r]
        have "length r2 < length t" using Cons by simp
        with Cons Some p show ?thesis by (simp add: exponent_def)
      qed
    qed
  qed
  from m x2 obtain mm r1 where mm: "mantissa (snd (opt_sign s)) = Some (mm, r1)"
    and rest: "rest = snd (exponent r1)"
    by (auto simp: num_match_def split: option.splits)
  from ma [OF mm] os [of s] ex [of r1] have "length rest < length s" unfolding rest by linarith
  then show "(rest, s) \<in> measure length" by simp
next
  fix s :: string
  assume "s \<noteq> []"
  then show "(tl s, s) \<in> measure length" by (cases s) simp_all
qed

text \<open>
  \<^verbatim>\<open>float(tok)\<close> on a token matched by \<^verbatim>\<open>_NUM_RE\<close>: the decimal value of the token
  (the rounding to binary64 is not modelled).
\<close>

definition digit_val :: "char \<Rightarrow> nat" where
  "digit_val c = of_char c - of_char CHR ''0''"

definition digits_val :: "string \<Rightarrow> nat" where
  "digits_val ds = foldl (\<lambda>n c. 10 * n + digit_val c) 0 ds"

definition float_of :: "string \<Rightarrow> real" where
  "float_of tok =
     (let sg = fst (opt_sign tok);
          r = snd (opt_sign tok);
          ip = takeWhile is_digit r;
          r1 = dropWhile is_digit r;
          fp = (case r1 of [] \<Rightarrow> [] | c # r' \<Rightarrow> if c = CHR ''.'' then takeWhile is_digit r' else []);
          r2 = (case r1 of [] \<Rightarrow> [] | c # r' \<Rightarrow> if c = CHR ''.'' then dropWhile is_digit r' else r1);
          ex = (case r2 of
                  [] \<Rightarrow> 0
                | c # r' \<Rightarrow>
                    if fst (opt_sign r') = ''-'' then - int (digits_val (snd (opt_sign r')))
                    else int (digits_val (snd (opt_sign r'))));
          m = real (digits_val ip) + real (digits_val fp) / 10 ^ length fp;
          v = (if 0 \<le> ex then m * 10 ^ nat ex else m / 10 ^ nat (- ex))
      in if sg = ''-'' then - v else v)"

section \<open>The row reader, \<^verbatim>\<open>BPMDataSDDS.from_file\<close>\<close>

text \<open>
  \<^verbatim>\<open>str.splitlines()\<close>: a line ends at \<^verbatim>\<open>\n\<close>, \<^verbatim>\<open>\r\<close>, \<^verbatim>\<open>\r\n\<close>, \<^verbatim>\<open>\v\<close>, \<^verbatim>\<open>\f\<close>,
  \<^verbatim>\<open>\x1c\<close>, \<^verbatim>\<open>\x1d\<close> or \<^verbatim>\<open>\x1e\<close>; there is no empty last line.
\<close>

definition is_linebreak :: "char \<Rightarrow> bool" where
  "is_linebreak c \<longleftrightarrow>
     c \<in> set [CHR 0x0A, CHR 0x0B, CHR 0x0C, CHR 0x0D, CHR 0x1C, CHR 0x1D, CHR 0x1E]"

fun splitlines_from :: "string \<Rightarrow> string \<Rightarrow> string list" where
  "splitlines_from cur [] = (if cur = [] then [] else [cur])"
| "splitlines_from cur [c] = (if is_linebreak c then [cur] else [cur @ [c]])"
| "splitlines_from cur (c # d # cs) =
     (if c = CHR 0x0D \<and> d = CHR 0x0A then cur # splitlines_from [] cs
      else if is_linebreak c then cur # splitlines_from [] (d # cs)
      else splitlines_from (cur @ [c]) (d # cs))"

definition splitlines :: "string \<Rightarrow> string list" where
  "splitlines text = splitlines_from [] text"

text \<open>
  \<^verbatim>\<open>s.split(None, 2)\<close>: at most two splits at runs of whitespace; what follows the
  second field, without its leading whitespace, is the third field when it is not empty.
\<close>

definition split_2 :: "string \<Rightarrow> string list" where
  "split_2 s =
     (let s0 = dropWhile is_space s in
      if s0 = [] then []
      else
        (let f1 = takeWhile (\<lambda>c. \<not> is_space c) s0;
             r1 = dropWhile is_space (dropWhile (\<lambda>c. \<not> is_space c) s0)
         in if r1 = [] then [f1]
            else
              (let f2 = takeWhile (\<lambda>c. \<not> is_space c) r1;
                   r2 = dropWhile is_space (dropWhile (\<lambda>c. \<not> is_space c) r1)
               in if r2 = [] then [f1, f2] else [f1, f2, r2])))"

text \<open>\<^verbatim>\<open>acc: Dict[str, Dict[str, list]]\<close>, the lists \<^verbatim>\<open>"x"\<close> and \<^verbatim>\<open>"y"\<close> as a pair.\<close>

type_synonym acc = "(string \<times> (real list \<times> real list)) list"

text \<open>The body of the loop over the lines.\<close>

definition process_line :: "acc \<Rightarrow> string \<Rightarrow> acc" where
  "process_line acc raw =
     (let s = strip raw in
      if s = [] \<or> hd s = CHR ''#'' then acc
      else
        (let parts = split_2 s in
         if length parts < 3 then acc
         else
           (let n_str = parts ! 0; name = parts ! 1; payload = parts ! 2 in
            if n_str \<notin> set [''0'', ''1''] then acc
            else
              (let nums = map float_of (findall payload) in
               if nums = [] then acc
               else
                 (let acc1 = (if name \<notin> set (map fst acc)
                              then AList.update name ([], []) acc else acc);
                      cx = fst (the (map_of acc1 name));
                      cy = snd (the (map_of acc1 name))
                  in if n_str = ''0'' then AList.update name (cx @ nums, cy) acc1
                     else AList.update name (cx, cy @ nums) acc1)))))"

text \<open>The final loop: mirroring with zeros and the synthesised \<^verbatim>\<open>z\<close>.\<close>

definition build :: "real list \<times> real list \<Rightarrow> triple" where
  "build comps =
     (let xa = fst comps;
          ya = snd comps;
          xb = (if length xa = 0 \<and> length ya > 0 then replicate (length ya) 0 else xa);
          yb = (if length ya = 0 \<and> length xb > 0 then replicate (length xb) 0 else ya);
          zb = replicate (length xb) 0
      in \<lparr>x_arr = xb, y_arr = yb, z_arr = zb\<rparr>)"

definition accumulate :: "string \<Rightarrow> acc" where
  "accumulate text = foldl process_line [] (splitlines text)"

definition BPMDataSDDS_from_text :: "string \<Rightarrow> dataset" where
  "BPMDataSDDS_from_text text = map (\<lambda>(name, comps). (name, build comps)) (accumulate text)"

text \<open>The lists of a name in the accumulator, empty when the name is not in it.\<close>

definition lookup_acc :: "acc \<Rightarrow> string \<Rightarrow> real list \<times> real list" where
  "lookup_acc acc name = (case map_of acc name of None \<Rightarrow> ([], []) | Some p \<Rightarrow> p)"

text \<open>A line feeds the \<^verbatim>\<open>y\<close> list of a name when its tag is \<^verbatim>\<open>1\<close> and its second field the name.\<close>

definition plane1_line :: "string \<Rightarrow> string \<Rightarrow> bool" where
  "plane1_line name raw \<longleftrightarrow>
     3 \<le> length (split_2 (strip raw)) \<and> split_2 (strip raw) ! 0 = ''1''
     \<and> split_2 (strip raw) ! 1 = name"

section \<open>The paren writer, \<^verbatim>\<open>BPMDataSDDS.to_data\<close>\<close>

text \<open>
  The keyword arguments of \<^verbatim>\<open>to_data\<close>. \<^verbatim>\<open>fmt\<close> stands for \<^verbatim>\<open>fmt.format\<close>, the
  rendering of one value by Python's format pattern; \<^verbatim>\<open>indent\<close> is unused by the source
  and \<^verbatim>\<open>path\<close> is the file that receives the text returned here.
\<close>

record opts =
  include_z :: bool
  fmt :: "real \<Rightarrow> string"
  sep :: string
  columns :: "int option"
  z_fill :: real
  scale :: real
  header_lines :: "string list option"

text \<open>\<^verbatim>\<open>[vals[i:i + columns] for i in range(0, len(vals), columns)]\<close>, for \<^verbatim>\<open>columns > 0\<close>.\<close>

function chunks :: "nat \<Rightarrow> 'a list \<Rightarrow> 'a list list" where
  "chunks n vals = (if n = 0 \<or> vals = [] then [] else take n vals # chunks n (drop n vals))"
  by pat_completeness auto
termination
  by (relation "measure (\<lambda>(n, vals). length vals)") auto

definition fmt_array :: "opts \<Rightarrow> real list \<Rightarrow> string" where
  "fmt_array ops a =
     (let vals = map (fmt ops) a in
      case columns ops of
        Some c \<Rightarrow>
          if c \<noteq> 0 \<and> c > 0 then
            (let lines = map (join (sep ops)) (chunks (nat c) vals) in
             if lines = [] then [] else join [CHR '','', CHR 0x0A] lines)
          else join (sep ops) vals
      | None \<Rightarrow> join (sep ops) vals)"

text \<open>The three arrays of one BPM as the loop body sets them: \<^verbatim>\<open>x\<close>, \<^verbatim>\<open>y\<close>, \<^verbatim>\<open>z\<close>.\<close>

definition scaled :: "opts \<Rightarrow> real list \<Rightarrow> real list" where
  "scaled ops a = map (\<lambda>v. v * scale ops) a"

definition z_of :: "opts \<Rightarrow> real list \<Rightarrow> real list" where
  "z_of ops x =
     (if include_z ops then scaled ops (replicate (length x) (z_fill ops))
      else replicate (length x) 0)"

definition entry_text :: "opts \<Rightarrow> string \<Rightarrow> real list \<Rightarrow> real list \<Rightarrow> real list \<Rightarrow> string" where
  "entry_text ops name x y z =
     (let sx = fmt_array ops (drop 1 x);
          sy = fmt_array ops (drop 1 y);
          sz = fmt_array ops (drop 1 z)
      in [CHR ''('', CHR 0x22] @ name @ [CHR 0x22] @ ''->'' @ [CHR 0x0A] @ ''{{'' @ sx @ ''},''
         @ [CHR 0x0A] @ ''{'' @ sy @ ''},'' @ [CHR 0x0A] @ ''{'' @ sz @ ''}})'')"

definition entry :: "opts \<Rightarrow> dataset \<Rightarrow> string \<Rightarrow> error + string" where
  "entry ops data name =
     (case BPMDataSDDS_get data name ''x'' of
        Inl e \<Rightarrow> Inl e
      | Inr gx \<Rightarrow>
          (case BPMDataSDDS_get data name ''y'' of
             Inl e \<Rightarrow> Inl e
           | Inr gy \<Rightarrow>
               (let x = scaled ops gx;
                    y = scaled ops gy;
                    z = z_of ops x
                in Inr (entry_text ops name x y z))))"

text \<open>The loop over \<^verbatim>\<open>enumerate(names)\<close>: a comma after every entry but the last.\<close>

fun write_entries :: "opts \<Rightarrow> dataset \<Rightarrow> string list \<Rightarrow> error + string" where
  "write_entries ops data [] = Inr []"
| "write_entries ops data (name # names) =
     (case entry ops data name of
        Inl e \<Rightarrow> Inl e
      | Inr en \<Rightarrow>
          (case write_entries ops data names of
             Inl e \<Rightarrow> Inl e
           | Inr rest \<Rightarrow>
               Inr (en @ (if names \<noteq> [] then [CHR '','', CHR 0x0A] else [CHR 0x0A]) @ rest)))"

definition has_header :: "opts \<Rightarrow> bool" where
  "has_header ops = (case header_lines ops of None \<Rightarrow> False | Some ls \<Rightarrow> ls \<noteq> [])"

definition to_data :: "opts \<Rightarrow> dataset \<Rightarrow> error + string" where
  "to_data ops data =
     (let head = (if has_header ops
                  then ''{{'' @ concat (map rstrip (the (header_lines ops))) @ ''},'' @ [CHR 0x0A]
                  else []);
          foot = (if has_header ops then ''}'' else [])
      in case write_entries ops data (list_bpms data) of
           Inl e \<Rightarrow> Inl e
         | Inr body \<Rightarrow> Inr (head @ ''{'' @ body @ ''}'' @ foot))"

text \<open>
  The arrays of one BPM as the writer formats them: scaled, \<^verbatim>\<open>z\<close> regenerated, and
  \<^verbatim>\<open>[1:]\<close> taken. The function is used to state the theorems on the text written.
\<close>

definition written :: "opts \<Rightarrow> triple \<Rightarrow> triple" where
  "written ops t =
     \<lparr>x_arr = drop 1 (scaled ops (x_arr t)),
      y_arr = drop 1 (scaled ops (y_arr t)),
      z_arr = drop 1 (z_of ops (scaled ops (x_arr t)))\<rparr>"

text \<open>Two entries with the same name and the same \<^verbatim>\<open>x\<close> and \<^verbatim>\<open>y\<close>: they may differ in \<^verbatim>\<open>z\<close>.\<close>

definition same_xy :: "string \<times> triple \<Rightarrow> string \<times> triple \<Rightarrow> bool" where
  "same_xy p q \<longleftrightarrow> fst p = fst q \<and> x_arr (snd p) = x_arr (snd q) \<and> y_arr (snd p) = y_arr (snd q)"

text \<open>
  The text of \<^verbatim>\<open>'{:.7g}'.format(v)\<close> for the values \<^verbatim>\<open>0.0\<close>, \<^verbatim>\<open>1.0\<close>, ..., \<^verbatim>\<open>9.0\<close>:
  the formatter of the worked examples.
\<close>

definition fmt_digit :: "real \<Rightarrow> string" where
  "fmt_digit v = [''0123456789'' ! nat \<lfloor>v\<rfloor>]"

text \<open>
  The text of \<^verbatim>\<open>'{:.0f}'.format(v)\<close> for \<open>0 \<le> v < 9.5\<close>: the nearest integer, a tie
  going to the even one. A formatter that does not render every value exactly.
\<close>

definition fmt_0f :: "real \<Rightarrow> string" where
  "fmt_0f v =
     (let k = \<lfloor>v\<rfloor>; r = v - of_int k
      in [''0123456789'' ! nat (if r < 1 / 2 \<or> (r = 1 / 2 \<and> even k) then k else k + 1)])"

section \<open>The paren reader, \<^verbatim>\<open>BPMDataParen.from_file\<close>\<close>

text \<open>
  \<^verbatim>\<open>re.sub(r'\\\s*\n\s*', '', s)\<close>. At a backslash the greedy \<^verbatim>\<open>\s*\<close> takes the whole
  run of whitespace after it and gives characters back until a newline is next, which is
  then the last newline of the run; the second \<^verbatim>\<open>\s*\<close> takes the rest of the run. So the
  match is the backslash with the whole run, when the run has a newline, and the scan
  goes on after the run.
\<close>

function join_line_continuations :: "string \<Rightarrow> string" where
  "join_line_continuations [] = []"
| "join_line_continuations (c # cs) =
     (if c = CHR 0x5C \<and> CHR 0x0A \<in> set (takeWhile is_space cs)
      then join_line_continuations (dropWhile is_space cs)
      else c # join_line_continuations cs)"
  by pat_completeness auto
termination
  by (relation "measure length") (auto simp: length_dropWhile_le less_Suc_eq_le)

text \<open>
  The pieces of \<^verbatim>\<open>_PATTERN\<close>, each matching at the start of a string and returning the
  rest. \<^verbatim>\<open>lit\<close> is a literal, \<^verbatim>\<open>skip_ws\<close> is \<^verbatim>\<open>\s*\<close> before a character that is
  not whitespace.
\<close>

definition lit :: "string \<Rightarrow> string \<Rightarrow> string option" where
  "lit p s = (if take (length p) s = p then Some (drop (length p) s) else None)"

definition skip_ws :: "string \<Rightarrow> string" where
  "skip_ws s = dropWhile is_space s"

text \<open>
  \<^verbatim>\<open>\s*([^"]+)\s*"\<close> after the opening quote. The first \<^verbatim>\<open>\s*\<close> takes the leading
  whitespace and the group everything up to the next quote, trailing whitespace
  included. When only whitespace stands before the quote, the first \<^verbatim>\<open>\s*\<close> gives its
  last character back to the group, which needs one character.
\<close>

definition name_group :: "string \<Rightarrow> (string \<times> string) option" where
  "name_group s =
     (let w = takeWhile is_space s;
          r = dropWhile is_space s;
          n = takeWhile (\<lambda>c. c \<noteq> CHR 0x22) r;
          after = dropWhile (\<lambda>c. c \<noteq> CHR 0x22) r
      in if after = [] then None
         else if n \<noteq> [] then Some (n, tl after)
         else if w \<noteq> [] then Some ([last w], tl after)
         else None)"

text \<open>\<^verbatim>\<open>\{\s*([^{}]*)\}\<close>\<close>

definition not_brace :: "char \<Rightarrow> bool" where
  "not_brace c \<longleftrightarrow> c \<noteq> CHR ''{'' \<and> c \<noteq> CHR ''}''"

definition body_group :: "string \<Rightarrow> (string \<times> string) option" where
  "body_group s =
     do {
       r \<leftarrow> lit ''{'' s;
       r' \<leftarrow> lit ''}'' (dropWhile not_brace (skip_ws r));
       Some (takeWhile not_brace (skip_ws r), r')
     }"

text \<open>
  \<^verbatim>\<open>\("\s*([^"]+)\s*"\s*->\s*\{\s*\{\s*([^{}]*)\}\s*,\s*\{\s*([^{}]*)\}\s*,\s*\{\s*([^{}]*)\}\s*\}\s*\)\<close>:
  the four groups and the rest of the string.
\<close>

definition pattern_match :: "string \<Rightarrow> ((string \<times> string \<times> string \<times> string) \<times> string) option" where
  "pattern_match s =
     do {
       s1 \<leftarrow> lit [CHR ''('', CHR 0x22] s;
       (name, s2) \<leftarrow> name_group s1;
       s3 \<leftarrow> lit ''->'' (skip_ws s2);
       s4 \<leftarrow> lit ''{'' (skip_ws s3);
       (a1, s5) \<leftarrow> body_group (skip_ws s4);
       s6 \<leftarrow> lit '','' (skip_ws s5);
       (a2, s7) \<leftarrow> body_group (skip_ws s6);
       s8 \<leftarrow> lit '','' (skip_ws s7);
       (a3, s9) \<leftarrow> body_group (skip_ws s8);
       s10 \<leftarrow> lit ''}'' (skip_ws s9);
       s11 \<leftarrow> lit '')'' (skip_ws s10);
       Some ((name, a1, a2, a3), s11)
     }"

text \<open>\<^verbatim>\<open>_PATTERN.finditer(text)\<close>: the matches from left to right, without overlap.\<close>

function finditer :: "string \<Rightarrow> (string \<times> string \<times> string \<times> string) list" where
  "finditer s =
     (if s = [] then []
      else case pattern_match s of
             Some (m, rest) \<Rightarrow> m # finditer rest
           | None \<Rightarrow> finditer (tl s))"
  by pat_completeness auto
termination
proof (relation "measure length")
  show "wf (measure length)" by simp
next
  fix s :: string and x2 m rest
  assume "s \<noteq> []" and pm: "pattern_match s = Some x2" and x2: "(m, rest) = x2"
  have li: "\<And>p t r. lit p t = Some r \<Longrightarrow> length r + length p = length t"
  proof -
    fix p t r :: string
    assume "lit p t = Some r"
    then have tk: "take (length p) t = p" and r: "r = drop (length p) t"
      by (auto simp: lit_def split: if_splits)
    from tk have "length p \<le> length t"
      by (metis length_take min.cobounded1)
    then show "length r + length p = length t" unfolding r by simp
  qed
  have sk: "\<And>t. length (skip_ws t) \<le> length t"
    by (simp add: skip_ws_def length_dropWhile_le)
  have ng: "\<And>t nm r. name_group t = Some (nm, r) \<Longrightarrow> length r \<le> length t"
  proof -
    fix t nm r
    assume "name_group t = Some (nm, r)"
    then have "r = tl (dropWhile (\<lambda>c. c \<noteq> CHR 0x22) (dropWhile is_space t))"
      by (auto simp: name_group_def Let_def split: if_splits)
    moreover have "length (dropWhile (\<lambda>c. c \<noteq> CHR 0x22) (dropWhile is_space t)) \<le> length t"
      by (meson length_dropWhile_le order_trans)
    ultimately show "length r \<le> length t" by simp
  qed
  have bg: "\<And>t b r. body_group t = Some (b, r) \<Longrightarrow> length r \<le> length t"
  proof -
    fix t b r
    assume "body_group t = Some (b, r)"
    then obtain u where u: "lit ''{'' t = Some u"
      and r: "lit ''}'' (dropWhile not_brace (skip_ws u)) = Some r"
      by (auto simp: body_group_def bind_eq_Some_conv)
    have "length (dropWhile not_brace (skip_ws u)) \<le> length u"
      by (meson length_dropWhile_le order_trans sk)
    with li [OF u] li [OF r] show "length r \<le> length t" by simp
  qed
  from pm x2 obtain s1 where s1: "lit [CHR ''('', CHR 0x22] s = Some s1"
    and "\<exists>nm s2 s3 s4 a1 s5 s6 a2 s7 s8 a3 s9 s10.
           name_group s1 = Some (nm, s2) \<and> lit ''->'' (skip_ws s2) = Some s3
           \<and> lit ''{'' (skip_ws s3) = Some s4 \<and> body_group (skip_ws s4) = Some (a1, s5)
           \<and> lit '','' (skip_ws s5) = Some s6 \<and> body_group (skip_ws s6) = Some (a2, s7)
           \<and> lit '','' (skip_ws s7) = Some s8 \<and> body_group (skip_ws s8) = Some (a3, s9)
           \<and> lit ''}'' (skip_ws s9) = Some s10 \<and> lit '')'' (skip_ws s10) = Some rest"
    by (auto simp: pattern_match_def bind_eq_Some_conv)
  then obtain nm s2 s3 s4 a1 s5 s6 a2 s7 s8 a3 s9 s10 where
    c: "name_group s1 = Some (nm, s2)" "lit ''->'' (skip_ws s2) = Some s3"
       "lit ''{'' (skip_ws s3) = Some s4" "body_group (skip_ws s4) = Some (a1, s5)"
       "lit '','' (skip_ws s5) = Some s6" "body_group (skip_ws s6) = Some (a2, s7)"
       "lit '','' (skip_ws s7) = Some s8" "body_group (skip_ws s8) = Some (a3, s9)"
       "lit ''}'' (skip_ws s9) = Some s10" "lit '')'' (skip_ws s10) = Some rest"
    by blast
  have "length rest < length s"
    using li [OF s1] ng [OF c(1)] li [OF c(2)] sk [of s2] li [OF c(3)] sk [of s3]
      bg [OF c(4)] sk [of s4] li [OF c(5)] sk [of s5] bg [OF c(6)] sk [of s6]
      li [OF c(7)] sk [of s7] bg [OF c(8)] sk [of s8] li [OF c(9)] sk [of s9]
      li [OF c(10)] sk [of s10]
    by simp
  then show "(rest, s) \<in> measure length" by simp
next
  fix s :: string
  assume "s \<noteq> []"
  then show "(tl s, s) \<in> measure length" by (cases s) simp_all
qed

text \<open>\<^verbatim>\<open>np.array([float(x) for x in _NUM_RE.findall(a)])\<close>\<close>

definition parse_array :: "string \<Rightarrow> real list" where
  "parse_array a = map float_of (findall a)"

definition BPMDataParen_from_text :: "string \<Rightarrow> dataset" where
  "BPMDataParen_from_text text =
     foldl (\<lambda>results (name, a1, a2, a3).
              AList.update name
                \<lparr>x_arr = parse_array a1, y_arr = parse_array a2, z_arr = parse_array a3\<rparr>
                results)
       [] (finditer (join_line_continuations text))"

section \<open>The statistical summary, \<^verbatim>\<open>summary_stats\<close>\<close>

text \<open>
  A statistic is a Python float: \<^verbatim>\<open>nan\<close> or a number. The numpy reductions are
  modelled by their definitions over the reals, for a non-empty array:
  \<^verbatim>\<open>np.mean\<close>, \<^verbatim>\<open>np.std(arr, ddof=d)\<close>, \<^verbatim>\<open>np.min\<close>, \<^verbatim>\<open>np.max\<close>, \<^verbatim>\<open>np.median\<close> and
  \<^verbatim>\<open>np.percentile\<close> (linear interpolation; it raises outside \<^verbatim>\<open>[0, 100]\<close>).
\<close>

datatype stat = NaN | Val real

record stats =
  st_n :: nat
  st_mean :: stat
  st_std :: stat
  st_min :: stat
  st_max :: stat
  st_median :: stat
  st_pcts :: "(string \<times> stat) list"

definition np_mean :: "real list \<Rightarrow> real" where
  "np_mean arr = sum_list arr / real (length arr)"

definition np_std :: "real list \<Rightarrow> nat \<Rightarrow> real" where
  "np_std arr ddof =
     sqrt (sum_list (map (\<lambda>v. (v - np_mean arr)\<^sup>2) arr) / (real (length arr) - real ddof))"

definition np_min :: "real list \<Rightarrow> real" where
  "np_min arr = fold min arr (hd arr)"

definition np_max :: "real list \<Rightarrow> real" where
  "np_max arr = fold max arr (hd arr)"

definition np_median :: "real list \<Rightarrow> real" where
  "np_median arr =
     (let s = sort arr; k = length arr in
      if even k then (s ! (k div 2 - 1) + s ! (k div 2)) / 2 else s ! (k div 2))"

definition np_percentile :: "real list \<Rightarrow> real \<Rightarrow> error + real" where
  "np_percentile arr p =
     (if p < 0 \<or> 100 < p then Inl (ValueError ''Percentiles must be in the range [0, 100]'')
      else
        (let s = sort arr;
             h = (real (length arr) - 1) * p / 100;
             lo = nat \<lfloor>h\<rfloor>;
             hi = min (lo + 1) (length arr - 1)
         in Inr (s ! lo + (h - real lo) * (s ! hi - s ! lo))))"

text \<open>The dict key \<^verbatim>\<open>f"p{int(p):02d}"\<close>: \<^verbatim>\<open>int\<close> truncates towards zero.\<close>

definition py_int :: "real \<Rightarrow> int" where
  "py_int p = (if 0 \<le> p then \<lfloor>p\<rfloor> else \<lceil>p\<rceil>)"

function show_nat :: "nat \<Rightarrow> string" where
  "show_nat k =
     (if k < 10 then [''0123456789'' ! k] else show_nat (k div 10) @ [''0123456789'' ! (k mod 10)])"
  by pat_completeness auto
termination
  by (relation "measure id") auto

definition format_02d :: "int \<Rightarrow> string" where
  "format_02d i =
     (if i < 0 then ''-'' @ show_nat (nat (- i))
      else if i < 10 then ''0'' @ show_nat (nat i)
      else show_nat (nat i))"

definition pct_key :: "real \<Rightarrow> string" where
  "pct_key p = ''p'' @ format_02d (py_int p)"

text \<open>The loop \<^verbatim>\<open>for p in percentiles: out[key] = float(np.percentile(arr, p))\<close>.\<close>

fun add_percentiles :: "real list \<Rightarrow> real list \<Rightarrow> (string \<times> stat) list \<Rightarrow> error + (string \<times> stat) list" where
  "add_percentiles arr [] out = Inr out"
| "add_percentiles arr (p # ps) out =
     (case np_percentile arr p of
        Inl e \<Rightarrow> Inl e
      | Inr v \<Rightarrow> add_percentiles arr ps (AList.update (pct_key p) (Val v) out))"

text \<open>\<^verbatim>\<open>stats_for\<close>, the same function in both classes.\<close>

definition stats_for :: "real list \<Rightarrow> real list \<Rightarrow> error + stats" where
  "stats_for percentiles arr =
     (if length arr = 0 then
        Inr \<lparr>st_n = 0, st_mean = NaN, st_std = NaN, st_min = NaN, st_max = NaN, st_median = NaN,
             st_pcts = foldl (\<lambda>base p. AList.update (pct_key p) NaN base) [] percentiles\<rparr>
      else
        (case add_percentiles arr percentiles [] of
           Inl e \<Rightarrow> Inl e
         | Inr ps \<Rightarrow>
             Inr \<lparr>st_n = length arr,
                  st_mean = Val (np_mean arr),
                  st_std = (if length arr > 1 then Val (np_std arr 1) else Val 0),
                  st_min = Val (np_min arr),
                  st_max = Val (np_max arr),
                  st_median = Val (np_median arr),
                  st_pcts = ps\<rparr>))"

text \<open>
  The list \<^verbatim>\<open>rows\<close> of \<^verbatim>\<open>summary_stats\<close>, one row per BPM name and component, as the
  nested loop appends them. The two classes differ in their \<^verbatim>\<open>get\<close> only.
\<close>

fun rows_for ::
  "(dataset \<Rightarrow> string \<Rightarrow> string \<Rightarrow> error + real list) \<Rightarrow> dataset \<Rightarrow> real list
   \<Rightarrow> (string \<times> string) list \<Rightarrow> error + (string \<times> string \<times> stats) list" where
  "rows_for get data percentiles [] = Inr []"
| "rows_for get data percentiles ((name, sel) # rest) =
     (case get data name sel of
        Inl e \<Rightarrow> Inl e
      | Inr arr \<Rightarrow>
          (case stats_for percentiles arr of
             Inl e \<Rightarrow> Inl e
           | Inr st \<Rightarrow>
               (case rows_for get data percentiles rest of
                  Inl e \<Rightarrow> Inl e
                | Inr rows \<Rightarrow> Inr ((name, sel, st) # rows))))"

definition name_components :: "dataset \<Rightarrow> (string \<times> string) list" where
  "name_components data =
     concat (map (\<lambda>name. map (\<lambda>sel. (name, sel)) [''x'', ''y'', ''z'']) (list_bpms data))"

text \<open>
  The end of \<^verbatim>\<open>summary_stats\<close>: \<^verbatim>\<open>pd.DataFrame(rows)\<close>, the selection of the columns present,
  and \<^verbatim>\<open>df.sort_values(["BPM", "component"]).reset_index(drop=True)\<close>. A frame made of no
  rows has no column, so \<^verbatim>\<open>sort_values\<close> raises \<^verbatim>\<open>KeyError('BPM')\<close>; otherwise the rows come
  back in the order of their names and components, rows of equal keys in the order they had.
  The frame is the list of its rows; the order of the columns within a row is not modelled.
\<close>

definition sort_values ::
  "(string \<times> string \<times> stats) list \<Rightarrow> error + (string \<times> string \<times> stats) list" where
  "sort_values rows =
     (if rows = [] then Inl (KeyError ''BPM'')
      else Inr (sort_key (\<lambda>r. (fst r, fst (snd r))) rows))"

definition BPMDataParen_summary_stats ::
  "dataset \<Rightarrow> real list \<Rightarrow> error + (string \<times> string \<times> stats) list" where
  "BPMDataParen_summary_stats data percentiles =
     (case rows_for BPMDataParen_get data percentiles (name_components data) of
        Inl e \<Rightarrow> Inl e
      | Inr rows \<Rightarrow> sort_values rows)"

definition BPMDataSDDS_summary_stats ::
  "dataset \<Rightarrow> real list \<Rightarrow> error + (string \<times> string \<times> stats) list" where
  "BPMDataSDDS_summary_stats data percentiles =
     (case rows_for BPMDataSDDS_get data percentiles (name_components data) of
        Inl e \<Rightarrow> Inl e
      | Inr rows \<Rightarrow> sort_values rows)"

section \<open>Notions used to state the round trip\<close>

text \<open>A character that can neither start nor continue a numeric token.\<close>

definition neutral :: "char \<Rightarrow> bool" where
  "neutral c \<longleftrightarrow> \<not> is_digit c \<and> \<not> is_sign c \<and> c \<noteq> CHR ''.'' \<and> c \<noteq> CHR ''E'' \<and> c \<noteq> CHR ''e''"

text \<open>A string that \<^verbatim>\<open>_NUM_RE\<close> matches as a whole.\<close>

definition is_token :: "string \<Rightarrow> bool" where
  "is_token t \<longleftrightarrow> num_match t = Some (t, [])"

text \<open>A separator of commas and whitespace, as the default \<^verbatim>\<open>sep=","\<close>.\<close>

definition sep_ok :: "string \<Rightarrow> bool" where
  "sep_ok s \<longleftrightarrow> s \<noteq> [] \<and> (\<forall>c\<in>set s. c = CHR '','' \<or> is_space c)"

text \<open>A name that the paren reader reads back: not empty, no whitespace, no double quote.\<close>

definition name_ok :: "string \<Rightarrow> bool" where
  "name_ok name \<longleftrightarrow>
     name \<noteq> [] \<and> (\<forall>c\<in>set name. \<not> is_space c) \<and> CHR 0x22 \<notin> set name"

text \<open>The entry of a name of the Dataset, and the entries of a list of names as the loop writes them.\<close>

definition entry_of :: "opts \<Rightarrow> dataset \<Rightarrow> string \<Rightarrow> string" where
  "entry_of ops data name =
     entry_text ops name
       (scaled ops (x_arr (the (map_of data name))))
       (scaled ops (y_arr (the (map_of data name))))
       (z_of ops (scaled ops (x_arr (the (map_of data name)))))"

fun body_text :: "opts \<Rightarrow> dataset \<Rightarrow> string list \<Rightarrow> string" where
  "body_text ops data [] = []"
| "body_text ops data (name # names) =
     entry_of ops data name @ (if names \<noteq> [] then [CHR '','', CHR 0x0A] else [CHR 0x0A])
     @ body_text ops data names"

text \<open>Characters of a formatted array: of tokens, commas and whitespace.\<close>

definition plain_char :: "char \<Rightarrow> bool" where
  "plain_char c \<longleftrightarrow> \<not> neutral c \<or> c = CHR '','' \<or> is_space c"

text \<open>A value that the number format renders as one token that parses back to the value.\<close>

definition fmt_exact :: "opts \<Rightarrow> real \<Rightarrow> bool" where
  "fmt_exact ops v \<longleftrightarrow> is_token (fmt ops v) \<and> float_of (fmt ops v) = v"

text \<open>The arrays of a written triple are all rendered exactly.\<close>

definition arrays_exact :: "opts \<Rightarrow> triple \<Rightarrow> bool" where
  "arrays_exact ops w \<longleftrightarrow>
     (\<forall>v\<in>set (x_arr w) \<union> set (y_arr w) \<union> set (z_arr w). fmt_exact ops v)"

text \<open>The arrays of a written triple are all rendered as numeric tokens.\<close>

definition arrays_tokens :: "opts \<Rightarrow> triple \<Rightarrow> bool" where
  "arrays_tokens ops w \<longleftrightarrow>
     (\<forall>v\<in>set (x_arr w) \<union> set (y_arr w) \<union> set (z_arr w). is_token (fmt ops v))"

text \<open>
  The arrays that are read from the texts of the values of a triple: each value \<^verbatim>\<open>v\<close>
  comes back as \<^verbatim>\<open>float(fmt.format(v))\<close>.
\<close>

definition reread_triple :: "opts \<Rightarrow> triple \<Rightarrow> triple" where
  "reread_triple ops w =
     \<lparr>x_arr = map (\<lambda>v. float_of (fmt ops v)) (x_arr w),
      y_arr = map (\<lambda>v. float_of (fmt ops v)) (y_arr w),
      z_arr = map (\<lambda>v. float_of (fmt ops v)) (z_arr w)\<rparr>"

text \<open>The four groups that \<^verbatim>\<open>_PATTERN\<close> captures from the entry of a name.\<close>

definition groups_of :: "opts \<Rightarrow> dataset \<Rightarrow> string \<Rightarrow> string \<times> string \<times> string \<times> string" where
  "groups_of ops data name =
     (name,
      dropWhile is_space (fmt_array ops (x_arr (written ops (the (map_of data name))))),
      dropWhile is_space (fmt_array ops (y_arr (written ops (the (map_of data name))))),
      dropWhile is_space (fmt_array ops (z_arr (written ops (the (map_of data name))))))"

text \<open>A header that holds neither an opening parenthesis nor a backslash.\<close>

definition header_ok :: "opts \<Rightarrow> bool" where
  "header_ok ops \<longleftrightarrow>
     (has_header ops \<longrightarrow>
        (\<forall>c\<in>set (concat (map rstrip (the (header_lines ops)))). c \<noteq> CHR ''('' \<and> c \<noteq> CHR 0x5C))"

text \<open>
  A row-format text is read by \<^verbatim>\<open>BPMDataSDDS.from_file\<close>, written by \<^verbatim>\<open>to_data\<close>, and
  the text written is read by \<^verbatim>\<open>BPMDataParen.from_file\<close>.
\<close>

definition round_trip :: "opts \<Rightarrow> string \<Rightarrow> error + dataset" where
  "round_trip ops text =
     (case to_data ops (BPMDataSDDS_from_text text) of
        Inl e \<Rightarrow> Inl e
      | Inr out \<Rightarrow> Inr (BPMDataParen_from_text out))"

text \<open>
  The equations of the functions defined by general recursion are unconditional, so
  they are used explicitly and not by the simplifier.
\<close>

declare findall.simps [simp del]
declare finditer.simps [simp del]
declare chunks.simps [simp del]
declare show_nat.simps [simp del]

section \<open>Turn-count normalisation\<close>

text \<open>
  Claim C6. For a target length \<open>N \<ge> 0\<close>: an array of length \<open>N\<close> is returned unchanged,
  a longer one is cut to its first \<open>N\<close> elements, a shorter one gets \<open>N - len(a)\<close> trailing
  zeros, and normalising twice to the same \<open>N\<close> is normalising once.
\<close>

theorem C6_normalize:
  assumes "0 \<le> N"
  shows "(int (length a) = N \<longrightarrow> normalize_arr a N = a)
       \<and> (int (length a) > N \<longrightarrow> normalize_arr a N = take (nat N) a)
       \<and> (int (length a) < N \<longrightarrow> normalize_arr a N = a @ replicate (nat N - length a) 0)
       \<and> length (normalize_arr a N) = nat N
       \<and> normalize_arr (normalize_arr a N) N = normalize_arr a N"
proof -
  have len: "length (normalize_arr a N) = nat N"
    using assms by (auto simp: normalize_arr_def slice_to_def)
  have idem: "normalize_arr (normalize_arr a N) N = normalize_arr a N"
  proof -
    have "int (length (normalize_arr a N)) = N"
      using len assms by simp
    then show ?thesis
      by (simp add: normalize_arr_def [of "normalize_arr a N" N])
  qed
  have pad: "int (length a) < N \<longrightarrow> normalize_arr a N = a @ replicate (nat N - length a) 0"
  proof
    assume "int (length a) < N"
    moreover have "nat (N - int (length a)) = nat N - length a"
      by linarith
    ultimately show "normalize_arr a N = a @ replicate (nat N - length a) 0"
      by (simp add: normalize_arr_def)
  qed
  show ?thesis
    using assms len idem pad by (simp add: normalize_arr_def slice_to_def)
qed

theorem C6_normalize_witness:
  "normalize_arr [1, 2, 3] 3 = [1, 2, 3]
   \<and> normalize_arr [1, 2, 3] 2 = [1, 2]
   \<and> normalize_arr [1, 2, 3] 5 = [1, 2, 3, 0, 0]
   \<and> normalize_arr (normalize_arr [1, 2, 3] 5) 5 = normalize_arr [1, 2, 3] 5"
  using C6_normalize [of 3 "[1, 2, 3]"] C6_normalize [of 2 "[1, 2, 3]"]
    C6_normalize [of 5 "[1, 2, 3]"]
  by (simp add: numeral_eq_Suc normalize_arr_def slice_to_def)

section \<open>The text of one BPM entry\<close>

lemma get_x_present:
  "map_of data name = Some t \<Longrightarrow> BPMDataSDDS_get data name ''x'' = Inr (x_arr t)"
  by (auto simp: BPMDataSDDS_get_def strip_def rstrip_def lower_def lower_char_def is_space_def
      component_def Let_def dest: map_of_SomeD intro: rev_image_eqI)

lemma get_y_present:
  "map_of data name = Some t \<Longrightarrow> BPMDataSDDS_get data name ''y'' = Inr (y_arr t)"
  by (auto simp: BPMDataSDDS_get_def strip_def rstrip_def lower_def lower_char_def is_space_def
      component_def Let_def dest: map_of_SomeD intro: rev_image_eqI)

lemma entry_present:
  "map_of data name = Some t \<Longrightarrow>
   entry ops data name =
     Inr (entry_text ops name (scaled ops (x_arr t)) (scaled ops (y_arr t))
            (z_of ops (scaled ops (x_arr t))))"
  by (simp add: entry_def get_x_present get_y_present Let_def)

lemma z_of_const:
  "z_of ops x = replicate (length x) (if include_z ops then z_fill ops * scale ops else 0)"
  by (simp add: z_of_def scaled_def)

lemma chunks_Nil: "chunks n [] = []"
  by (simp add: chunks.simps)

lemma chunks_short: "vals \<noteq> [] \<Longrightarrow> length vals \<le> n \<Longrightarrow> chunks n vals = [vals]"
  by (subst chunks.simps) (cases vals; simp add: chunks.simps [of n "[]"])

lemma fmt_array_Nil: "fmt_array ops [] = []"
  by (simp add: fmt_array_def chunks_Nil split: option.splits)

lemma length_scaled: "length (scaled ops a) = length a"
  by (simp add: scaled_def)

lemma write_entries_text:
  "set names \<subseteq> fst ` set data \<Longrightarrow> write_entries ops data names = Inr (body_text ops data names)"
proof (induction names)
  case Nil
  show ?case by simp
next
  case (Cons name names)
  then have "name \<in> fst ` set data" by simp
  then obtain t where t: "map_of data name = Some t"
    by (metis map_of_eq_None_iff not_None_eq)
  have e: "entry ops data name = Inr (entry_of ops data name)"
    by (simp add: entry_present [OF t] entry_of_def t)
  from Cons have ih: "write_entries ops data names = Inr (body_text ops data names)" by simp
  show ?case by (simp add: e ih)
qed

lemma to_data_text:
  "to_data ops data =
     Inr ((if has_header ops
           then ''{{'' @ concat (map rstrip (the (header_lines ops))) @ ''},'' @ [CHR 0x0A]
           else [])
          @ ''{'' @ body_text ops data (list_bpms data) @ ''}''
          @ (if has_header ops then ''}'' else []))"
proof -
  have "set (list_bpms data) \<subseteq> fst ` set data" by (simp add: list_bpms_def)
  then have "write_entries ops data (list_bpms data) = Inr (body_text ops data (list_bpms data))"
    by (rule write_entries_text)
  then show ?thesis by (simp add: to_data_def Let_def)
qed

lemma entry_of_text:
  "entry_of ops data name =
     [CHR ''('', CHR 0x22] @ name @ [CHR 0x22] @ ''->'' @ [CHR 0x0A] @ ''{{''
     @ fmt_array ops (x_arr (written ops (the (map_of data name)))) @ ''},'' @ [CHR 0x0A] @ ''{''
     @ fmt_array ops (y_arr (written ops (the (map_of data name)))) @ ''},'' @ [CHR 0x0A] @ ''{''
     @ fmt_array ops (z_arr (written ops (the (map_of data name)))) @ ''}})''"
  by (simp add: entry_of_def entry_text_def written_def)

lemma body_text_contains:
  "name \<in> set names \<Longrightarrow>
   \<exists>pre post. body_text ops data names = pre @ entry_of ops data name @ post"
proof (induction names)
  case Nil
  then show ?case by simp
next
  case (Cons n names)
  let ?sp = "if names \<noteq> [] then [CHR '','', CHR 0x0A] else [CHR 0x0A]"
  show ?case
  proof (cases "name = n")
    case True
    have "body_text ops data (n # names)
        = [] @ entry_of ops data name @ (?sp @ body_text ops data names)"
      using True by simp
    then show ?thesis by blast
  next
    case False
    with Cons obtain pre post where
      "body_text ops data names = pre @ entry_of ops data name @ post" by auto
    then have "body_text ops data (n # names)
        = (entry_of ops data n @ ?sp @ pre) @ entry_of ops data name @ post"
      by simp
    then show ?thesis by blast
  qed
qed

lemma to_data_contains:
  assumes "map_of data name = Some t"
  shows "\<exists>pre post. to_data ops data = Inr (pre @ entry_of ops data name @ post)"
proof -
  have "name \<in> fst ` set data"
    using assms by (metis map_of_eq_None_iff option.distinct(1))
  then have "name \<in> set (list_bpms data)" by (simp add: list_bpms_def)
  from body_text_contains [OF this] obtain pre post where
    b: "body_text ops data (list_bpms data) = pre @ entry_of ops data name @ post" by blast
  define head where "head = (if has_header ops
           then ''{{'' @ concat (map rstrip (the (header_lines ops))) @ ''},'' @ [CHR 0x0A]
           else []) @ ''{''"
  define foot where "foot = ''}'' @ (if has_header ops then ''}'' else [])"
  have "to_data ops data = Inr ((head @ pre) @ entry_of ops data name @ (post @ foot))"
    unfolding to_data_text b head_def foot_def by simp
  then show ?thesis by blast
qed

text \<open>
  Claim C3. The text that \<^verbatim>\<open>to_data\<close> writes is the header, an opening brace, the
  entries of the sorted BPM names and the closing braces; for every BPM of the Dataset
  it holds the entry of that BPM, whose three arrays are \<^verbatim>\<open>x[1:]\<close>, \<^verbatim>\<open>y[1:]\<close> and
  \<^verbatim>\<open>z[1:]\<close> of its (scaled, regenerated) arrays: each formatted array is one element
  shorter than the array it comes from, and an array of at most one element is
  written as the empty text. The \<^verbatim>\<open>z\<close> of the writer is as long as \<^verbatim>\<open>x\<close>, so when the
  stored \<^verbatim>\<open>z\<close> is as long as \<^verbatim>\<open>x\<close> (as it is after the row reader) the formatted
  \<^verbatim>\<open>z\<close> is one element shorter than the stored one too.
\<close>

theorem C3_first_sample_dropped:
  assumes "map_of data name = Some t"
  shows "to_data ops data =
           Inr ((if has_header ops
                 then ''{{'' @ concat (map rstrip (the (header_lines ops))) @ ''},'' @ [CHR 0x0A]
                 else [])
                @ ''{'' @ body_text ops data (list_bpms data) @ ''}''
                @ (if has_header ops then ''}'' else []))
       \<and> (\<exists>pre post.
            to_data ops data =
              Inr (pre @ [CHR ''('', CHR 0x22] @ name @ [CHR 0x22] @ ''->'' @ [CHR 0x0A] @ ''{{''
                   @ fmt_array ops (drop 1 (scaled ops (x_arr t))) @ ''},'' @ [CHR 0x0A] @ ''{''
                   @ fmt_array ops (drop 1 (scaled ops (y_arr t))) @ ''},'' @ [CHR 0x0A] @ ''{''
                   @ fmt_array ops (drop 1 (z_of ops (scaled ops (x_arr t)))) @ ''}})'' @ post))
       \<and> entry_of ops data name =
           [CHR ''('', CHR 0x22] @ name @ [CHR 0x22] @ ''->'' @ [CHR 0x0A] @ ''{{''
           @ fmt_array ops (x_arr (written ops t)) @ ''},'' @ [CHR 0x0A] @ ''{''
           @ fmt_array ops (y_arr (written ops t)) @ ''},'' @ [CHR 0x0A] @ ''{''
           @ fmt_array ops (z_arr (written ops t)) @ ''}})''
       \<and> entry ops data name =
           Inr ([CHR ''('', CHR 0x22] @ name @ [CHR 0x22] @ ''->'' @ [CHR 0x0A] @ ''{{''
                @ fmt_array ops (x_arr (written ops t)) @ ''},'' @ [CHR 0x0A] @ ''{''
                @ fmt_array ops (y_arr (written ops t)) @ ''},'' @ [CHR 0x0A] @ ''{''
                @ fmt_array ops (z_arr (written ops t)) @ ''}})'')
       \<and> x_arr (written ops t) = drop 1 (scaled ops (x_arr t))
       \<and> y_arr (written ops t) = drop 1 (scaled ops (y_arr t))
       \<and> z_arr (written ops t) = drop 1 (z_of ops (scaled ops (x_arr t)))
       \<and> length (x_arr (written ops t)) = length (x_arr t) - 1
       \<and> length (y_arr (written ops t)) = length (y_arr t) - 1
       \<and> length (z_arr (written ops t)) = length (z_of ops (scaled ops (x_arr t))) - 1
       \<and> (length (z_arr t) = length (x_arr t) \<longrightarrow>
            length (z_arr (written ops t)) = length (z_arr t) - 1)
       \<and> (length (x_arr t) \<le> 1 \<longrightarrow>
            x_arr (written ops t) = [] \<and> fmt_array ops (x_arr (written ops t)) = [])
       \<and> (length (y_arr t) \<le> 1 \<longrightarrow>
            y_arr (written ops t) = [] \<and> fmt_array ops (y_arr (written ops t)) = [])
       \<and> (length (z_of ops (scaled ops (x_arr t))) \<le> 1 \<longrightarrow>
            z_arr (written ops t) = [] \<and> fmt_array ops (z_arr (written ops t)) = [])"
proof -
  have td: "to_data ops data =
           Inr ((if has_header ops
                 then ''{{'' @ concat (map rstrip (the (header_lines ops))) @ ''},'' @ [CHR 0x0A]
                 else [])
                @ ''{'' @ body_text ops data (list_bpms data) @ ''}''
                @ (if has_header ops then ''}'' else []))"
    by (rule to_data_text)
  have eo: "entry_of ops data name =
           [CHR ''('', CHR 0x22] @ name @ [CHR 0x22] @ ''->'' @ [CHR 0x0A] @ ''{{''
           @ fmt_array ops (x_arr (written ops t)) @ ''},'' @ [CHR 0x0A] @ ''{''
           @ fmt_array ops (y_arr (written ops t)) @ ''},'' @ [CHR 0x0A] @ ''{''
           @ fmt_array ops (z_arr (written ops t)) @ ''}})''"
    using entry_of_text [of ops data name] assms by simp
  from to_data_contains [OF assms, of ops] obtain pre post where
    "to_data ops data = Inr (pre @ entry_of ops data name @ post)" by blast
  then have "to_data ops data =
              Inr (pre @ [CHR ''('', CHR 0x22] @ name @ [CHR 0x22] @ ''->'' @ [CHR 0x0A] @ ''{{''
                   @ fmt_array ops (drop 1 (scaled ops (x_arr t))) @ ''},'' @ [CHR 0x0A] @ ''{''
                   @ fmt_array ops (drop 1 (scaled ops (y_arr t))) @ ''},'' @ [CHR 0x0A] @ ''{''
                   @ fmt_array ops (drop 1 (z_of ops (scaled ops (x_arr t)))) @ ''}})'' @ post)"
    unfolding eo by (simp add: written_def)
  then have ct: "\<exists>pre post.
            to_data ops data =
              Inr (pre @ [CHR ''('', CHR 0x22] @ name @ [CHR 0x22] @ ''->'' @ [CHR 0x0A] @ ''{{''
                   @ fmt_array ops (drop 1 (scaled ops (x_arr t))) @ ''},'' @ [CHR 0x0A] @ ''{''
                   @ fmt_array ops (drop 1 (scaled ops (y_arr t))) @ ''},'' @ [CHR 0x0A] @ ''{''
                   @ fmt_array ops (drop 1 (z_of ops (scaled ops (x_arr t)))) @ ''}})'' @ post)"
    by blast
  have en: "entry ops data name =
           Inr ([CHR ''('', CHR 0x22] @ name @ [CHR 0x22] @ ''->'' @ [CHR 0x0A] @ ''{{''
                @ fmt_array ops (x_arr (written ops t)) @ ''},'' @ [CHR 0x0A] @ ''{''
                @ fmt_array ops (y_arr (written ops t)) @ ''},'' @ [CHR 0x0A] @ ''{''
                @ fmt_array ops (z_arr (written ops t)) @ ''}})'')"
    using entry_present [OF assms, of ops] by (simp add: entry_text_def written_def)
  have rest: "x_arr (written ops t) = drop 1 (scaled ops (x_arr t))
       \<and> y_arr (written ops t) = drop 1 (scaled ops (y_arr t))
       \<and> z_arr (written ops t) = drop 1 (z_of ops (scaled ops (x_arr t)))
       \<and> length (x_arr (written ops t)) = length (x_arr t) - 1
       \<and> length (y_arr (written ops t)) = length (y_arr t) - 1
       \<and> length (z_arr (written ops t)) = length (z_of ops (scaled ops (x_arr t))) - 1
       \<and> (length (z_arr t) = length (x_arr t) \<longrightarrow>
            length (z_arr (written ops t)) = length (z_arr t) - 1)
       \<and> (length (x_arr t) \<le> 1 \<longrightarrow>
            x_arr (written ops t) = [] \<and> fmt_array ops (x_arr (written ops t)) = [])
       \<and> (length (y_arr t) \<le> 1 \<longrightarrow>
            y_arr (written ops t) = [] \<and> fmt_array ops (y_arr (written ops t)) = [])
       \<and> (length (z_of ops (scaled ops (x_arr t))) \<le> 1 \<longrightarrow>
            z_arr (written ops t) = [] \<and> fmt_array ops (z_arr (written ops t)) = [])"
    by (simp add: written_def length_scaled fmt_array_Nil z_of_const)
  from td ct eo en rest show ?thesis by (intro conjI) blast+
qed

lemma sort_BA: "sort [''B'', ''A''] = [''A'', ''B'']"
  by (simp add: less_char_def)

theorem C3_first_sample_dropped_witness:
  "to_data \<lparr>include_z = True, fmt = fmt_digit, sep = '','', columns = Some 6, z_fill = 3,
            scale = 1, header_lines = None\<rparr>
     [(''B'', \<lparr>x_arr = [1, 2, 4], y_arr = [5], z_arr = []\<rparr>),
      (''A'', \<lparr>x_arr = [7], y_arr = [1, 3], z_arr = [9, 9, 9]\<rparr>)]
   = Inr (''{('' @ [CHR 0x22] @ ''A'' @ [CHR 0x22] @ ''->'' @ [CHR 0x0A] @ ''{{},''
          @ [CHR 0x0A] @ ''{3},'' @ [CHR 0x0A] @ ''{}}),'' @ [CHR 0x0A]
          @ ''('' @ [CHR 0x22] @ ''B'' @ [CHR 0x22] @ ''->'' @ [CHR 0x0A] @ ''{{2,4},''
          @ [CHR 0x0A] @ ''{},'' @ [CHR 0x0A] @ ''{3,3}})'' @ [CHR 0x0A] @ ''}'')"
proof -
  define ops where "ops = \<lparr>include_z = True, fmt = fmt_digit, sep = '','', columns = Some 6,
    z_fill = 3, scale = 1, header_lines = None\<rparr>"
  define tA where "tA = \<lparr>x_arr = [7], y_arr = [1, 3], z_arr = [9, 9, 9::real]\<rparr>"
  define tB where "tB = \<lparr>x_arr = [1, 2, 4], y_arr = [5], z_arr = ([]::real list)\<rparr>"
  define D where "D = [(''B'', tB), (''A'', tA)]"
  have mA: "map_of D ''A'' = Some tA" and mB: "map_of D ''B'' = Some tB"
    by (simp_all add: D_def)
  have wA: "written ops tA = \<lparr>x_arr = [], y_arr = [3], z_arr = []\<rparr>"
    by (simp add: written_def scaled_def z_of_def ops_def tA_def)
  have wB: "written ops tB = \<lparr>x_arr = [2, 4], y_arr = [], z_arr = [3, 3]\<rparr>"
    by (simp add: written_def scaled_def z_of_def ops_def tB_def numeral_3_eq_3)
  have fa: "fmt_array ops [] = []" "fmt_array ops [3] = ''3''" "fmt_array ops [2, 4] = ''2,4''"
    "fmt_array ops [3, 3] = ''3,3''"
    by (simp_all add: fmt_array_def ops_def fmt_digit_def chunks_short chunks_Nil)
  have eA: "entry_of ops D ''A'' =
      [CHR ''('', CHR 0x22] @ ''A'' @ [CHR 0x22] @ ''->'' @ [CHR 0x0A] @ ''{{''
           @ fmt_array ops (x_arr (written ops tA)) @ ''},'' @ [CHR 0x0A] @ ''{''
           @ fmt_array ops (y_arr (written ops tA)) @ ''},'' @ [CHR 0x0A] @ ''{''
           @ fmt_array ops (z_arr (written ops tA)) @ ''}})''"
    using C3_first_sample_dropped [OF mA, of ops] by (elim conjE)
  have eB: "entry_of ops D ''B'' =
      [CHR ''('', CHR 0x22] @ ''B'' @ [CHR 0x22] @ ''->'' @ [CHR 0x0A] @ ''{{''
           @ fmt_array ops (x_arr (written ops tB)) @ ''},'' @ [CHR 0x0A] @ ''{''
           @ fmt_array ops (y_arr (written ops tB)) @ ''},'' @ [CHR 0x0A] @ ''{''
           @ fmt_array ops (z_arr (written ops tB)) @ ''}})''"
    using C3_first_sample_dropped [OF mB, of ops] by (elim conjE)
  have nm: "list_bpms D = [''A'', ''B'']"
    by (simp add: list_bpms_def D_def sort_BA [simplified])
  have hh: "\<not> has_header ops" by (simp add: has_header_def ops_def)
  have "to_data ops D =
           Inr ((if has_header ops
                 then ''{{'' @ concat (map rstrip (the (header_lines ops))) @ ''},'' @ [CHR 0x0A]
                 else [])
                @ ''{'' @ body_text ops D (list_bpms D) @ ''}''
                @ (if has_header ops then ''}'' else []))"
    using C3_first_sample_dropped [OF mA, of ops] by (elim conjE)
  then have "to_data ops D
   = Inr (''{('' @ [CHR 0x22] @ ''A'' @ [CHR 0x22] @ ''->'' @ [CHR 0x0A] @ ''{{},''
          @ [CHR 0x0A] @ ''{3},'' @ [CHR 0x0A] @ ''{}}),'' @ [CHR 0x0A]
          @ ''('' @ [CHR 0x22] @ ''B'' @ [CHR 0x22] @ ''->'' @ [CHR 0x0A] @ ''{{2,4},''
          @ [CHR 0x0A] @ ''{},'' @ [CHR 0x0A] @ ''{3,3}})'' @ [CHR 0x0A] @ ''}'')"
    unfolding nm by (simp add: hh eA eB wA wB fa)
  then show ?thesis unfolding ops_def D_def tA_def tB_def .
qed

lemma same_xy_keys: "list_all2 same_xy d1 d2 \<Longrightarrow> map fst d1 = map fst d2"
  by (induction rule: list_all2_induct) (auto simp: same_xy_def)

lemma same_xy_get:
  assumes "list_all2 same_xy d1 d2" and "sel = ''x'' \<or> sel = ''y''"
  shows "BPMDataSDDS_get d1 name sel = BPMDataSDDS_get d2 name sel"
proof -
  have keys: "map fst d1 = map fst d2" using assms(1) by (rule same_xy_keys)
  have msg: "not_found_message d1 name = not_found_message d2 name"
    by (simp add: not_found_message_def list_bpms_def keys)
  have look: "rel_option (\<lambda>t u. x_arr t = x_arr u \<and> y_arr t = y_arr u) (map_of d1 name) (map_of d2 name)"
    using assms(1) by (induction rule: list_all2_induct) (auto simp: same_xy_def)
  have st: "strip (lower sel) = sel"
    using assms(2)
    by (auto simp: strip_def rstrip_def lower_def lower_char_def is_space_def)
  show ?thesis
    using look assms(2) keys msg
    by (cases "map_of d1 name"; cases "map_of d2 name")
       (auto simp: BPMDataSDDS_get_def st component_def Let_def)
qed

lemma same_xy_entry:
  "list_all2 same_xy d1 d2 \<Longrightarrow> entry ops d1 name = entry ops d2 name"
  unfolding entry_def
  by (simp only: same_xy_get [of d1 d2 "''x''"] same_xy_get [of d1 d2 "''y''"] simp_thms)

lemma same_xy_write_entries:
  "list_all2 same_xy d1 d2 \<Longrightarrow> write_entries ops d1 names = write_entries ops d2 names"
proof (induction names)
  case Nil
  show ?case by simp
next
  case (Cons a names)
  show ?case
    unfolding write_entries.simps by (simp only: same_xy_entry [OF Cons.prems] Cons.IH [OF Cons.prems])
qed

lemma same_xy_to_data:
  "list_all2 same_xy d1 d2 \<Longrightarrow> to_data ops d1 = to_data ops d2"
proof -
  assume a: "list_all2 same_xy d1 d2"
  have "list_bpms d1 = list_bpms d2" by (simp add: list_bpms_def same_xy_keys [OF a])
  then show ?thesis
    unfolding to_data_def by (simp only: same_xy_write_entries [OF a])
qed

text \<open>
  Claim C4. The \<^verbatim>\<open>z\<close> array that \<^verbatim>\<open>to_data\<close> writes for a BPM is not read from the
  Dataset: in the text written, the third array of the entry of every BPM is \<^verbatim>\<open>[1:]\<close> of
  an array as long as the BPM's \<^verbatim>\<open>x\<close> that is constant, at \<^verbatim>\<open>z_fill * scale\<close> with
  \<^verbatim>\<open>include_z\<close> and at zero without it; and two Datasets that differ only in their
  stored \<^verbatim>\<open>z\<close> arrays give the same text.
\<close>

theorem C4_z_override:
  assumes "map_of data name = Some t"
  shows "to_data ops data =
           Inr ((if has_header ops
                 then ''{{'' @ concat (map rstrip (the (header_lines ops))) @ ''},'' @ [CHR 0x0A]
                 else [])
                @ ''{'' @ body_text ops data (list_bpms data) @ ''}''
                @ (if has_header ops then ''}'' else []))
       \<and> (\<exists>pre post.
            to_data ops data =
              Inr (pre @ [CHR ''('', CHR 0x22] @ name @ [CHR 0x22] @ ''->'' @ [CHR 0x0A] @ ''{{''
                   @ fmt_array ops (drop 1 (scaled ops (x_arr t))) @ ''},'' @ [CHR 0x0A] @ ''{''
                   @ fmt_array ops (drop 1 (scaled ops (y_arr t))) @ ''},'' @ [CHR 0x0A] @ ''{''
                   @ fmt_array ops
                       (drop 1 (replicate (length (x_arr t))
                                  (if include_z ops then z_fill ops * scale ops else 0)))
                   @ ''}})'' @ post))
       \<and> entry_of ops data name =
           [CHR ''('', CHR 0x22] @ name @ [CHR 0x22] @ ''->'' @ [CHR 0x0A] @ ''{{''
           @ fmt_array ops (drop 1 (scaled ops (x_arr t))) @ ''},'' @ [CHR 0x0A] @ ''{''
           @ fmt_array ops (drop 1 (scaled ops (y_arr t))) @ ''},'' @ [CHR 0x0A] @ ''{''
           @ fmt_array ops
               (drop 1 (replicate (length (x_arr t))
                          (if include_z ops then z_fill ops * scale ops else 0)))
           @ ''}})''
       \<and> (include_z ops \<longrightarrow>
            entry ops data name =
              Inr (entry_text ops name (scaled ops (x_arr t)) (scaled ops (y_arr t))
                     (replicate (length (x_arr t)) (z_fill ops * scale ops)))
            \<and> z_arr (written ops t) = replicate (length (x_arr t) - 1) (z_fill ops * scale ops))
       \<and> (\<not> include_z ops \<longrightarrow>
            entry ops data name =
              Inr (entry_text ops name (scaled ops (x_arr t)) (scaled ops (y_arr t))
                     (replicate (length (x_arr t)) 0))
            \<and> z_arr (written ops t) = replicate (length (x_arr t) - 1) 0)
       \<and> length (z_of ops (scaled ops (x_arr t))) = length (x_arr t)
       \<and> length (z_arr (written ops t)) = length (x_arr (written ops t))
       \<and> (\<forall>data'. list_all2 same_xy data data' \<longrightarrow> to_data ops data' = to_data ops data)"
proof -
  have td: "to_data ops data =
           Inr ((if has_header ops
                 then ''{{'' @ concat (map rstrip (the (header_lines ops))) @ ''},'' @ [CHR 0x0A]
                 else [])
                @ ''{'' @ body_text ops data (list_bpms data) @ ''}''
                @ (if has_header ops then ''}'' else []))"
    by (rule to_data_text)
  have eo: "entry_of ops data name =
           [CHR ''('', CHR 0x22] @ name @ [CHR 0x22] @ ''->'' @ [CHR 0x0A] @ ''{{''
           @ fmt_array ops (drop 1 (scaled ops (x_arr t))) @ ''},'' @ [CHR 0x0A] @ ''{''
           @ fmt_array ops (drop 1 (scaled ops (y_arr t))) @ ''},'' @ [CHR 0x0A] @ ''{''
           @ fmt_array ops
               (drop 1 (replicate (length (x_arr t))
                          (if include_z ops then z_fill ops * scale ops else 0)))
           @ ''}})''"
    using entry_of_text [of ops data name] assms
    by (simp add: written_def z_of_const length_scaled)
  from to_data_contains [OF assms, of ops] obtain pre post where
    "to_data ops data = Inr (pre @ entry_of ops data name @ post)" by blast
  then have "to_data ops data =
              Inr (pre @ [CHR ''('', CHR 0x22] @ name @ [CHR 0x22] @ ''->'' @ [CHR 0x0A] @ ''{{''
                   @ fmt_array ops (drop 1 (scaled ops (x_arr t))) @ ''},'' @ [CHR 0x0A] @ ''{''
                   @ fmt_array ops (drop 1 (scaled ops (y_arr t))) @ ''},'' @ [CHR 0x0A] @ ''{''
                   @ fmt_array ops
                       (drop 1 (replicate (length (x_arr t))
                                  (if include_z ops then z_fill ops * scale ops else 0)))
                   @ ''}})'' @ post)"
    unfolding eo by simp
  then have ct: "\<exists>pre post.
            to_data ops data =
              Inr (pre @ [CHR ''('', CHR 0x22] @ name @ [CHR 0x22] @ ''->'' @ [CHR 0x0A] @ ''{{''
                   @ fmt_array ops (drop 1 (scaled ops (x_arr t))) @ ''},'' @ [CHR 0x0A] @ ''{''
                   @ fmt_array ops (drop 1 (scaled ops (y_arr t))) @ ''},'' @ [CHR 0x0A] @ ''{''
                   @ fmt_array ops
                       (drop 1 (replicate (length (x_arr t))
                                  (if include_z ops then z_fill ops * scale ops else 0)))
                   @ ''}})'' @ post)"
    by blast
  have e: "entry ops data name =
     Inr (entry_text ops name (scaled ops (x_arr t)) (scaled ops (y_arr t))
            (replicate (length (x_arr t)) (if include_z ops then z_fill ops * scale ops else 0)))"
    using entry_present [OF assms, of ops] by (simp add: z_of_const length_scaled)
  have w: "z_arr (written ops t) =
     replicate (length (x_arr t) - 1) (if include_z ops then z_fill ops * scale ops else 0)"
    by (simp add: written_def z_of_const length_scaled)
  have l: "length (z_of ops (scaled ops (x_arr t))) = length (x_arr t)"
    by (simp add: z_of_const length_scaled)
  have l2: "length (z_arr (written ops t)) = length (x_arr (written ops t))"
    by (simp add: written_def z_of_const length_scaled)
  have ind: "\<forall>data'. list_all2 same_xy data data' \<longrightarrow> to_data ops data' = to_data ops data"
    by (simp add: same_xy_to_data)
  have old: "(include_z ops \<longrightarrow>
            entry ops data name =
              Inr (entry_text ops name (scaled ops (x_arr t)) (scaled ops (y_arr t))
                     (replicate (length (x_arr t)) (z_fill ops * scale ops)))
            \<and> z_arr (written ops t) = replicate (length (x_arr t) - 1) (z_fill ops * scale ops))
       \<and> (\<not> include_z ops \<longrightarrow>
            entry ops data name =
              Inr (entry_text ops name (scaled ops (x_arr t)) (scaled ops (y_arr t))
                     (replicate (length (x_arr t)) 0))
            \<and> z_arr (written ops t) = replicate (length (x_arr t) - 1) 0)
       \<and> length (z_of ops (scaled ops (x_arr t))) = length (x_arr t)
       \<and> length (z_arr (written ops t)) = length (x_arr (written ops t))
       \<and> (\<forall>data'. list_all2 same_xy data data' \<longrightarrow> to_data ops data' = to_data ops data)"
    using e w l l2 ind by simp
  from td ct eo old show ?thesis by (intro conjI) blast+
qed

theorem C4_z_override_witness:
  "to_data \<lparr>include_z = True, fmt = fmt_digit, sep = '','', columns = Some 6, z_fill = 3,
          scale = 2, header_lines = None\<rparr>
     [(''A'', \<lparr>x_arr = [1, 2, 4], y_arr = [1, 3], z_arr = [7, 7, 7]\<rparr>)]
   = Inr (''{('' @ [CHR 0x22] @ ''A'' @ [CHR 0x22] @ ''->'' @ [CHR 0x0A] @ ''{{4,8},''
          @ [CHR 0x0A] @ ''{6},'' @ [CHR 0x0A] @ ''{6,6}})'' @ [CHR 0x0A] @ ''}'')
   \<and> to_data \<lparr>include_z = False, fmt = fmt_digit, sep = '','', columns = Some 6, z_fill = 3,
          scale = 2, header_lines = None\<rparr>
     [(''A'', \<lparr>x_arr = [1, 2, 4], y_arr = [1, 3], z_arr = [7, 7, 7]\<rparr>)]
   = Inr (''{('' @ [CHR 0x22] @ ''A'' @ [CHR 0x22] @ ''->'' @ [CHR 0x0A] @ ''{{4,8},''
          @ [CHR 0x0A] @ ''{6},'' @ [CHR 0x0A] @ ''{0,0}})'' @ [CHR 0x0A] @ ''}'')
   \<and> to_data \<lparr>include_z = True, fmt = fmt_digit, sep = '','', columns = Some 6, z_fill = 3,
          scale = 2, header_lines = None\<rparr>
       [(''A'', \<lparr>x_arr = [1, 2, 4], y_arr = [1, 3], z_arr = []\<rparr>)]
     = to_data \<lparr>include_z = True, fmt = fmt_digit, sep = '','', columns = Some 6, z_fill = 3,
          scale = 2, header_lines = None\<rparr>
       [(''A'', \<lparr>x_arr = [1, 2, 4], y_arr = [1, 3], z_arr = [7, 7, 7]\<rparr>)]"
proof -
  define t where "t = \<lparr>x_arr = [1, 2, 4], y_arr = [1, 3], z_arr = [7, 7, 7::real]\<rparr>"
  define D where "D = [(''A'', t)]"
  define o1 where "o1 = \<lparr>include_z = True, fmt = fmt_digit, sep = '','', columns = Some 6,
    z_fill = 3, scale = 2, header_lines = None\<rparr>"
  define o2 where "o2 = \<lparr>include_z = False, fmt = fmt_digit, sep = '','', columns = Some 6,
    z_fill = 3, scale = 2, header_lines = None\<rparr>"
  have m: "map_of D ''A'' = Some t" by (simp add: D_def)
  have nm: "list_bpms D = [''A'']" by (simp add: list_bpms_def D_def)
  have hh: "\<not> has_header o1" "\<not> has_header o2" by (simp_all add: has_header_def o1_def o2_def)
  have ar: "drop 1 (scaled o1 (x_arr t)) = [4, 8]" "drop 1 (scaled o1 (y_arr t)) = [6]"
    "drop 1 (replicate (length (x_arr t)) (if include_z o1 then z_fill o1 * scale o1 else 0)) = [6, 6]"
    "drop 1 (scaled o2 (x_arr t)) = [4, 8]" "drop 1 (scaled o2 (y_arr t)) = [6]"
    "drop 1 (replicate (length (x_arr t)) (if include_z o2 then z_fill o2 * scale o2 else 0)) = [0, 0]"
    by (simp_all add: scaled_def t_def o1_def o2_def numeral_3_eq_3)
  have fa: "fmt_array o1 [4, 8] = ''4,8''" "fmt_array o1 [6] = ''6''" "fmt_array o1 [6, 6] = ''6,6''"
    "fmt_array o2 [4, 8] = ''4,8''" "fmt_array o2 [6] = ''6''" "fmt_array o2 [0, 0] = ''0,0''"
    by (simp_all add: fmt_array_def o1_def o2_def fmt_digit_def chunks_short)
  have e1: "entry_of o1 D ''A'' =
      [CHR ''('', CHR 0x22] @ ''A'' @ [CHR 0x22] @ ''->'' @ [CHR 0x0A] @ ''{{''
           @ fmt_array o1 (drop 1 (scaled o1 (x_arr t))) @ ''},'' @ [CHR 0x0A] @ ''{''
           @ fmt_array o1 (drop 1 (scaled o1 (y_arr t))) @ ''},'' @ [CHR 0x0A] @ ''{''
           @ fmt_array o1
               (drop 1 (replicate (length (x_arr t))
                          (if include_z o1 then z_fill o1 * scale o1 else 0)))
           @ ''}})''"
    using C4_z_override [OF m, of o1] by (elim conjE)
  have e1': "entry_of o1 D ''A'' =
      [CHR ''('', CHR 0x22] @ ''A'' @ [CHR 0x22] @ ''->'' @ [CHR 0x0A] @ ''{{4,8},''
          @ [CHR 0x0A] @ ''{6},'' @ [CHR 0x0A] @ ''{6,6}})''"
    unfolding e1 ar fa by simp
  have e2: "entry_of o2 D ''A'' =
      [CHR ''('', CHR 0x22] @ ''A'' @ [CHR 0x22] @ ''->'' @ [CHR 0x0A] @ ''{{''
           @ fmt_array o2 (drop 1 (scaled o2 (x_arr t))) @ ''},'' @ [CHR 0x0A] @ ''{''
           @ fmt_array o2 (drop 1 (scaled o2 (y_arr t))) @ ''},'' @ [CHR 0x0A] @ ''{''
           @ fmt_array o2
               (drop 1 (replicate (length (x_arr t))
                          (if include_z o2 then z_fill o2 * scale o2 else 0)))
           @ ''}})''"
    using C4_z_override [OF m, of o2] by (elim conjE)
  have e2': "entry_of o2 D ''A'' =
      [CHR ''('', CHR 0x22] @ ''A'' @ [CHR 0x22] @ ''->'' @ [CHR 0x0A] @ ''{{4,8},''
          @ [CHR 0x0A] @ ''{6},'' @ [CHR 0x0A] @ ''{0,0}})''"
    unfolding e2 ar fa by simp
  have "to_data o1 D =
           Inr ((if has_header o1
                 then ''{{'' @ concat (map rstrip (the (header_lines o1))) @ ''},'' @ [CHR 0x0A]
                 else [])
                @ ''{'' @ body_text o1 D (list_bpms D) @ ''}''
                @ (if has_header o1 then ''}'' else []))"
    using C4_z_override [OF m, of o1] by (elim conjE)
  then have a: "to_data o1 D
   = Inr (''{('' @ [CHR 0x22] @ ''A'' @ [CHR 0x22] @ ''->'' @ [CHR 0x0A] @ ''{{4,8},''
          @ [CHR 0x0A] @ ''{6},'' @ [CHR 0x0A] @ ''{6,6}})'' @ [CHR 0x0A] @ ''}'')"
    unfolding nm by (simp add: hh e1')
  have "to_data o2 D =
           Inr ((if has_header o2
                 then ''{{'' @ concat (map rstrip (the (header_lines o2))) @ ''},'' @ [CHR 0x0A]
                 else [])
                @ ''{'' @ body_text o2 D (list_bpms D) @ ''}''
                @ (if has_header o2 then ''}'' else []))"
    using C4_z_override [OF m, of o2] by (elim conjE)
  then have b: "to_data o2 D
   = Inr (''{('' @ [CHR 0x22] @ ''A'' @ [CHR 0x22] @ ''->'' @ [CHR 0x0A] @ ''{{4,8},''
          @ [CHR 0x0A] @ ''{6},'' @ [CHR 0x0A] @ ''{0,0}})'' @ [CHR 0x0A] @ ''}'')"
    unfolding nm by (simp add: hh e2')
  have c: "to_data o1 [(''A'', \<lparr>x_arr = [1, 2, 4], y_arr = [1, 3], z_arr = []\<rparr>)]
         = to_data o1 D"
  proof -
    have "\<forall>data'. list_all2 same_xy D data' \<longrightarrow> to_data o1 data' = to_data o1 D"
      using C4_z_override [OF m, of o1] by (elim conjE)
    moreover have "list_all2 same_xy D [(''A'', \<lparr>x_arr = [1, 2, 4], y_arr = [1, 3], z_arr = []\<rparr>)]"
      by (simp add: same_xy_def D_def t_def)
    ultimately show ?thesis by blast
  qed
  from a b c show ?thesis unfolding D_def t_def o1_def o2_def by (intro conjI)
qed

section \<open>Lookup of an unknown BPM\<close>

lemma sdds_get_unknown:
  assumes "strip (lower cmp) \<in> {''x'', ''y'', ''z''}" and "bpm \<notin> fst ` set data"
  shows "BPMDataSDDS_get data bpm cmp =
           Inl (KeyError (''BPM '' @ [CHR 0x27] @ bpm @ [CHR 0x27] @ '' not found. Available: ''
                          @ join '', '' (sort (map fst data))))"
  using assms by (auto simp: BPMDataSDDS_get_def not_found_message_def list_bpms_def Let_def)

lemma paren_get_unknown:
  assumes "strip (lower cmp) \<in> {''x'', ''y'', ''z''}" and "bpm \<notin> fst ` set data"
  shows "BPMDataParen_get data bpm cmp = Inl (KeyError bpm)"
proof -
  have "map_of data bpm = None" using assms(2) by (simp add: map_of_eq_None_iff)
  with assms(1) show ?thesis by (auto simp: BPMDataParen_get_def Let_def)
qed

text \<open>
  Claim C7. \<^verbatim>\<open>BPMDataSDDS.get\<close> answers an unknown name with the message that lists
  the sorted names (lemma \<open>sdds_get_unknown\<close>); \<^verbatim>\<open>BPMDataParen.get\<close> answers with the
  bare \<^verbatim>\<open>KeyError\<close> of the dict lookup, whose only argument is the name asked for.
\<close>

theorem C7_paren_get_unknown_bpm:
  "BPMDataParen_get
     [(''B2'', \<lparr>x_arr = [1], y_arr = [2], z_arr = [0]\<rparr>),
      (''A1'', \<lparr>x_arr = [3], y_arr = [4], z_arr = [0]\<rparr>)] ''C3'' ''x''
   = Inl (KeyError ''C3'')
   \<and> BPMDataSDDS_get
     [(''B2'', \<lparr>x_arr = [1], y_arr = [2], z_arr = [0]\<rparr>),
      (''A1'', \<lparr>x_arr = [3], y_arr = [4], z_arr = [0]\<rparr>)] ''C3'' ''x''
   = Inl (KeyError (''BPM '' @ [CHR 0x27] @ ''C3'' @ [CHR 0x27] @ '' not found. Available: A1, B2''))"
  by code_simp

section \<open>The row reader\<close>

text \<open>What one line does to the accumulator: nothing, or one update of one name.\<close>

lemma process_line_cases:
  "process_line acc raw = acc
   \<or> (\<exists>nums. nums \<noteq> [] \<and> 3 \<le> length (split_2 (strip raw))
         \<and> split_2 (strip raw) ! 0 = ''0''
         \<and> process_line acc raw =
             AList.update (split_2 (strip raw) ! 1)
               (fst (lookup_acc acc (split_2 (strip raw) ! 1)) @ nums,
                snd (lookup_acc acc (split_2 (strip raw) ! 1))) acc)
   \<or> (\<exists>nums. nums \<noteq> [] \<and> 3 \<le> length (split_2 (strip raw))
         \<and> split_2 (strip raw) ! 0 = ''1''
         \<and> process_line acc raw =
             AList.update (split_2 (strip raw) ! 1)
               (fst (lookup_acc acc (split_2 (strip raw) ! 1)),
                snd (lookup_acc acc (split_2 (strip raw) ! 1)) @ nums) acc)"
proof -
  let ?parts = "split_2 (strip raw)"
  let ?name = "?parts ! 1"
  let ?nums = "map float_of (findall (?parts ! 2))"
  let ?acc1 = "if ?name \<notin> set (map fst acc) then AList.update ?name ([], []) acc else acc"
  have look: "the (map_of ?acc1 ?name) = lookup_acc acc ?name"
  proof (cases "?name \<in> set (map fst acc)")
    case True
    then obtain p where "map_of acc ?name = Some p"
      by (metis map_of_eq_None_iff not_None_eq set_map)
    with True show ?thesis by (simp add: lookup_acc_def)
  next
    case False
    then have "map_of acc ?name = None" by (simp add: map_of_eq_None_iff)
    with False show ?thesis by (simp add: lookup_acc_def update_conv')
  qed
  have upd: "\<And>v. AList.update ?name v ?acc1 = AList.update ?name v acc"
    by simp
  show ?thesis
  proof (cases "strip raw = [] \<or> hd (strip raw) = CHR ''#'' \<or> length ?parts < 3
                \<or> ?parts ! 0 \<notin> set [''0'', ''1''] \<or> ?nums = []")
    case True
    then have "process_line acc raw = acc"
      by (auto simp: process_line_def Let_def)
    then show ?thesis by simp
  next
    case False
    then have p: "process_line acc raw =
        (if ?parts ! 0 = ''0''
         then AList.update ?name (fst (the (map_of ?acc1 ?name)) @ ?nums, snd (the (map_of ?acc1 ?name))) ?acc1
         else AList.update ?name (fst (the (map_of ?acc1 ?name)), snd (the (map_of ?acc1 ?name)) @ ?nums) ?acc1)"
      unfolding process_line_def Let_def by (simp del: update_last)
    from False have n: "?nums \<noteq> []" and l: "3 \<le> length ?parts"
      and t: "?parts ! 0 = ''0'' \<or> ?parts ! 0 = ''1''" by auto
    show ?thesis
    proof (cases "?parts ! 0 = ''0''")
      case True
      with p have "process_line acc raw =
          AList.update ?name (fst (lookup_acc acc ?name) @ ?nums, snd (lookup_acc acc ?name)) acc"
        unfolding look upd by simp
      with n l True show ?thesis by blast
    next
      case F: False
      with t have one: "?parts ! 0 = ''1''" by simp
      from F p have "process_line acc raw =
          AList.update ?name (fst (lookup_acc acc ?name), snd (lookup_acc acc ?name) @ ?nums) acc"
        unfolding look upd by simp
      with n l one show ?thesis by blast
    qed
  qed
qed

lemma set_update_subset: "set (AList.update k v al) \<subseteq> insert (k, v) (set al)"
  by (induction al) auto

lemma accumulate_invariant:
  assumes "P []" and "\<And>acc raw. P acc \<Longrightarrow> raw \<in> set lines \<Longrightarrow> P (process_line acc raw)"
  shows "P (foldl process_line [] lines)"
  using assms(2)
proof (induction lines rule: rev_induct)
  case Nil
  show ?case using assms(1) by simp
next
  case (snoc raw lines)
  have "P (foldl process_line [] lines)"
    by (rule snoc.IH) (simp add: snoc.prems)
  then show ?case by (simp add: snoc.prems)
qed

lemma takeWhile_not_Nil: "xs \<noteq> [] \<Longrightarrow> \<not> P (hd xs) \<Longrightarrow> takeWhile (\<lambda>c. \<not> P c) xs \<noteq> []"
  by (cases xs) auto

lemma split_2_unfold:
  "split_2 s =
     (if dropWhile is_space s = [] then []
      else if dropWhile is_space (dropWhile (\<lambda>c. \<not> is_space c) (dropWhile is_space s)) = []
        then [takeWhile (\<lambda>c. \<not> is_space c) (dropWhile is_space s)]
      else if dropWhile is_space (dropWhile (\<lambda>c. \<not> is_space c)
                (dropWhile is_space (dropWhile (\<lambda>c. \<not> is_space c) (dropWhile is_space s)))) = []
        then [takeWhile (\<lambda>c. \<not> is_space c) (dropWhile is_space s),
              takeWhile (\<lambda>c. \<not> is_space c)
                (dropWhile is_space (dropWhile (\<lambda>c. \<not> is_space c) (dropWhile is_space s)))]
      else [takeWhile (\<lambda>c. \<not> is_space c) (dropWhile is_space s),
            takeWhile (\<lambda>c. \<not> is_space c)
              (dropWhile is_space (dropWhile (\<lambda>c. \<not> is_space c) (dropWhile is_space s))),
            dropWhile is_space (dropWhile (\<lambda>c. \<not> is_space c)
              (dropWhile is_space (dropWhile (\<lambda>c. \<not> is_space c) (dropWhile is_space s))))])"
  unfolding split_2_def Let_def by (rule refl)

lemma split_2_name:
  assumes "3 \<le> length (split_2 s)"
  shows "split_2 s ! 1 \<noteq> [] \<and> (\<forall>c\<in>set (split_2 s ! 1). \<not> is_space c)"
proof -
  define s0 where "s0 = dropWhile is_space s"
  define r1 where "r1 = dropWhile is_space (dropWhile (\<lambda>c. \<not> is_space c) s0)"
  define r2 where "r2 = dropWhile is_space (dropWhile (\<lambda>c. \<not> is_space c) r1)"
  define f1 where "f1 = takeWhile (\<lambda>c. \<not> is_space c) s0"
  define f2 where "f2 = takeWhile (\<lambda>c. \<not> is_space c) r1"
  have sp: "split_2 s =
      (if s0 = [] then [] else if r1 = [] then [f1] else if r2 = [] then [f1, f2] else [f1, f2, r2])"
    unfolding s0_def r1_def r2_def f1_def f2_def by (rule split_2_unfold)
  have r1: "r1 \<noteq> []" using assms unfolding sp by (auto split: if_splits)
  have f2: "split_2 s ! 1 = f2" using assms unfolding sp by (auto split: if_splits)
  have "\<not> is_space (hd r1)" using r1 unfolding r1_def by (rule hd_dropWhile)
  with r1 have "f2 \<noteq> []" unfolding f2_def by (rule takeWhile_not_Nil)
  moreover have "\<forall>c\<in>set f2. \<not> is_space c" unfolding f2_def by (auto dest: set_takeWhileD)
  ultimately show ?thesis unfolding f2 by blast
qed

lemma accumulate_distinct: "distinct (map fst (accumulate text))"
  unfolding accumulate_def
proof (rule accumulate_invariant)
  show "distinct (map fst [])" by simp
next
  fix acc :: acc and raw assume "distinct (map fst acc)"
  then have "\<And>k v. distinct (map fst (AList.update k v acc))"
    by (simp add: distinct_update)
  then show "distinct (map fst (process_line acc raw))"
    using process_line_cases [of acc raw] \<open>distinct (map fst acc)\<close>
    by (elim disjE exE conjE) simp_all
qed

lemma accumulate_nonempty:
  "\<forall>p\<in>set (accumulate text). fst (snd p) \<noteq> [] \<or> snd (snd p) \<noteq> []"
  unfolding accumulate_def
proof (rule accumulate_invariant)
  show "\<forall>p\<in>set []. fst (snd p) \<noteq> [] \<or> snd (snd p) \<noteq> []" by simp
next
  fix acc :: acc and raw
  assume inv: "\<forall>p\<in>set acc. fst (snd p) \<noteq> [] \<or> snd (snd p) \<noteq> []"
  have step: "\<And>k v. fst v \<noteq> [] \<or> snd v \<noteq> [] \<Longrightarrow>
      \<forall>p\<in>set (AList.update k v acc). fst (snd p) \<noteq> [] \<or> snd (snd p) \<noteq> []"
  proof
    fix k :: string and v :: "real list \<times> real list" and p
    assume v: "fst v \<noteq> [] \<or> snd v \<noteq> []" and "p \<in> set (AList.update k v acc)"
    then have "p = (k, v) \<or> p \<in> set acc" using set_update_subset [of k v acc] by blast
    with v inv show "fst (snd p) \<noteq> [] \<or> snd (snd p) \<noteq> []" by auto
  qed
  show "\<forall>p\<in>set (process_line acc raw). fst (snd p) \<noteq> [] \<or> snd (snd p) \<noteq> []"
    using process_line_cases [of acc raw]
  proof (elim disjE exE conjE)
    assume "process_line acc raw = acc"
    with inv show ?thesis by simp
  next
    fix nums :: "real list"
    assume n: "nums \<noteq> []"
      and p: "process_line acc raw =
             AList.update (split_2 (strip raw) ! 1)
               (fst (lookup_acc acc (split_2 (strip raw) ! 1)) @ nums,
                snd (lookup_acc acc (split_2 (strip raw) ! 1))) acc"
    show ?thesis unfolding p by (rule step) (simp add: n)
  next
    fix nums :: "real list"
    assume n: "nums \<noteq> []"
      and p: "process_line acc raw =
             AList.update (split_2 (strip raw) ! 1)
               (fst (lookup_acc acc (split_2 (strip raw) ! 1)),
                snd (lookup_acc acc (split_2 (strip raw) ! 1)) @ nums) acc"
    show ?thesis unfolding p by (rule step) (simp add: n)
  qed
qed

lemma accumulate_names:
  "\<forall>n\<in>fst ` set (accumulate text). n \<noteq> [] \<and> (\<forall>c\<in>set n. \<not> is_space c)"
  unfolding accumulate_def
proof (rule accumulate_invariant)
  show "\<forall>n\<in>fst ` set []. n \<noteq> [] \<and> (\<forall>c\<in>set n. \<not> is_space c)" by simp
next
  fix acc :: acc and raw
  assume inv: "\<forall>n\<in>fst ` set acc. n \<noteq> [] \<and> (\<forall>c\<in>set n. \<not> is_space c)"
  have step: "\<And>v. 3 \<le> length (split_2 (strip raw)) \<Longrightarrow>
      \<forall>n\<in>fst ` set (AList.update (split_2 (strip raw) ! 1) v acc).
         n \<noteq> [] \<and> (\<forall>c\<in>set n. \<not> is_space c)"
  proof
    fix v n
    assume l: "3 \<le> length (split_2 (strip raw))"
      and "n \<in> fst ` set (AList.update (split_2 (strip raw) ! 1) v acc)"
    then obtain p where "p \<in> set (AList.update (split_2 (strip raw) ! 1) v acc)" and n: "n = fst p"
      by blast
    then have "p = (split_2 (strip raw) ! 1, v) \<or> p \<in> set acc"
      using set_update_subset [of "split_2 (strip raw) ! 1" v acc] by blast
    then show "n \<noteq> [] \<and> (\<forall>c\<in>set n. \<not> is_space c)"
    proof
      assume "p = (split_2 (strip raw) ! 1, v)"
      then have "n = split_2 (strip raw) ! 1" using n by simp
      then show ?thesis using split_2_name [OF l] by simp
    next
      assume "p \<in> set acc"
      then have "n \<in> fst ` set acc" using n by simp
      with inv show ?thesis by (rule bspec)
    qed
  qed
  show "\<forall>n\<in>fst ` set (process_line acc raw). n \<noteq> [] \<and> (\<forall>c\<in>set n. \<not> is_space c)"
    using process_line_cases [of acc raw]
  proof (elim disjE exE conjE)
    assume "process_line acc raw = acc"
    with inv show ?thesis by simp
  next
    fix nums
    assume l: "3 \<le> length (split_2 (strip raw))"
      and p: "process_line acc raw =
             AList.update (split_2 (strip raw) ! 1)
               (fst (lookup_acc acc (split_2 (strip raw) ! 1)) @ nums,
                snd (lookup_acc acc (split_2 (strip raw) ! 1))) acc"
    show ?thesis unfolding p using l by (rule step)
  next
    fix nums
    assume l: "3 \<le> length (split_2 (strip raw))"
      and p: "process_line acc raw =
             AList.update (split_2 (strip raw) ! 1)
               (fst (lookup_acc acc (split_2 (strip raw) ! 1)),
                snd (lookup_acc acc (split_2 (strip raw) ! 1)) @ nums) acc"
    show ?thesis unfolding p using l by (rule step)
  qed
qed

lemma accumulate_no_plane1:
  assumes "\<forall>raw\<in>set (splitlines text). \<not> plane1_line name raw"
  shows "snd (lookup_acc (accumulate text) name) = []"
  unfolding accumulate_def
proof (rule accumulate_invariant)
  show "snd (lookup_acc [] name) = []" by (simp add: lookup_acc_def)
next
  fix acc :: acc and raw
  assume inv: "snd (lookup_acc acc name) = []" and raw: "raw \<in> set (splitlines text)"
  from assms raw have np: "\<not> plane1_line name raw" by blast
  show "snd (lookup_acc (process_line acc raw) name) = []"
    using process_line_cases [of acc raw]
  proof (elim disjE exE conjE)
    assume "process_line acc raw = acc"
    with inv show ?thesis by simp
  next
    fix nums
    assume p: "process_line acc raw =
             AList.update (split_2 (strip raw) ! 1)
               (fst (lookup_acc acc (split_2 (strip raw) ! 1)) @ nums,
                snd (lookup_acc acc (split_2 (strip raw) ! 1))) acc"
    show ?thesis
      unfolding p using inv by (auto simp: lookup_acc_def update_conv')
  next
    fix nums
    assume l: "3 \<le> length (split_2 (strip raw))" and one: "split_2 (strip raw) ! 0 = ''1''"
      and p: "process_line acc raw =
             AList.update (split_2 (strip raw) ! 1)
               (fst (lookup_acc acc (split_2 (strip raw) ! 1)),
                snd (lookup_acc acc (split_2 (strip raw) ! 1)) @ nums) acc"
    from np l one have "split_2 (strip raw) ! 1 \<noteq> name" by (simp add: plane1_line_def)
    then show ?thesis
      unfolding p using inv by (simp add: lookup_acc_def update_conv')
  qed
qed

lemma from_text_lookup:
  "map_of (BPMDataSDDS_from_text text) name = map_option build (map_of (accumulate text) name)"
  by (simp add: BPMDataSDDS_from_text_def map_of_map)

lemma from_text_keys: "map fst (BPMDataSDDS_from_text text) = map fst (accumulate text)"
  by (simp add: BPMDataSDDS_from_text_def case_prod_unfold comp_def)

lemma build_arrays:
  "x_arr (build (cx, cy)) = (if cx = [] \<and> cy \<noteq> [] then replicate (length cy) 0 else cx)
   \<and> y_arr (build (cx, cy)) = (if cy = [] \<and> cx \<noteq> [] then replicate (length cx) 0 else cy)
   \<and> z_arr (build (cx, cy)) = replicate (length (x_arr (build (cx, cy)))) 0"
  by (auto simp: build_def Let_def)

text \<open>
  Claim C5. For every BPM of the Dataset read from a row-format text, with \<open>cx\<close> and
  \<open>cy\<close> the sequences accumulated for it: when exactly one of them is empty it becomes
  zeros of the other's length, \<^verbatim>\<open>z\<close> is zeros of the length of the resulting \<^verbatim>\<open>x\<close>, and
  when no line of the text feeds the BPM's \<^verbatim>\<open>y\<close> (tag \<^verbatim>\<open>1\<close>), \<^verbatim>\<open>y\<close> and \<^verbatim>\<open>z\<close> are zeros
  of the length of \<^verbatim>\<open>x\<close>.
\<close>

theorem C5_mirroring:
  assumes "map_of (BPMDataSDDS_from_text text) name = Some t"
  shows "\<exists>cx cy. map_of (accumulate text) name = Some (cx, cy)
     \<and> (cx \<noteq> [] \<and> cy = [] \<longrightarrow> x_arr t = cx \<and> y_arr t = replicate (length cx) 0)
     \<and> (cx = [] \<and> cy \<noteq> [] \<longrightarrow> x_arr t = replicate (length cy) 0 \<and> y_arr t = cy)
     \<and> (cx \<noteq> [] \<and> cy \<noteq> [] \<longrightarrow> x_arr t = cx \<and> y_arr t = cy)
     \<and> z_arr t = replicate (length (x_arr t)) 0
     \<and> ((\<forall>raw\<in>set (splitlines text). \<not> plane1_line name raw) \<longrightarrow>
          cx \<noteq> [] \<and> cy = [] \<and> x_arr t = cx \<and> y_arr t = replicate (length (x_arr t)) 0
          \<and> z_arr t = replicate (length (x_arr t)) 0)"
proof -
  from assms obtain comps where acc: "map_of (accumulate text) name = Some comps"
    and t: "t = build comps"
    by (auto simp: from_text_lookup)
  obtain cx cy where comps: "comps = (cx, cy)" by (cases comps)
  have mem: "(name, (cx, cy)) \<in> set (accumulate text)"
    using acc comps by (simp add: map_of_SomeD)
  have ne: "cx \<noteq> [] \<or> cy \<noteq> []"
    using accumulate_nonempty [of "text"] mem by fastforce
  have p1: "(\<forall>raw\<in>set (splitlines text). \<not> plane1_line name raw) \<longrightarrow> cy = []"
  proof
    assume "\<forall>raw\<in>set (splitlines text). \<not> plane1_line name raw"
    then have "snd (lookup_acc (accumulate text) name) = []" by (rule accumulate_no_plane1)
    then show "cy = []" using acc comps by (simp add: lookup_acc_def)
  qed
  have b: "x_arr t = (if cx = [] \<and> cy \<noteq> [] then replicate (length cy) 0 else cx)"
      "y_arr t = (if cy = [] \<and> cx \<noteq> [] then replicate (length cx) 0 else cy)"
      "z_arr t = replicate (length (x_arr t)) 0"
    using build_arrays [of cx cy] unfolding t comps by simp_all
  have "map_of (accumulate text) name = Some (cx, cy)
     \<and> (cx \<noteq> [] \<and> cy = [] \<longrightarrow> x_arr t = cx \<and> y_arr t = replicate (length cx) 0)
     \<and> (cx = [] \<and> cy \<noteq> [] \<longrightarrow> x_arr t = replicate (length cy) 0 \<and> y_arr t = cy)
     \<and> (cx \<noteq> [] \<and> cy \<noteq> [] \<longrightarrow> x_arr t = cx \<and> y_arr t = cy)
     \<and> z_arr t = replicate (length (x_arr t)) 0
     \<and> ((\<forall>raw\<in>set (splitlines text). \<not> plane1_line name raw) \<longrightarrow>
          cx \<noteq> [] \<and> cy = [] \<and> x_arr t = cx \<and> y_arr t = replicate (length (x_arr t)) 0
          \<and> z_arr t = replicate (length (x_arr t)) 0)"
    using acc comps ne p1 b by auto
  then show ?thesis by blast
qed

theorem C5_mirroring_witness:
  "map_of (BPMDataSDDS_from_text (''0 A 1 2'' @ [CHR 0x0A] @ ''1 B 3'' @ [CHR 0x0A] @ ''0 A 4'')) ''A''
     = Some \<lparr>x_arr = [1, 2, 4], y_arr = [0, 0, 0], z_arr = [0, 0, 0]\<rparr>
   \<and> map_of (BPMDataSDDS_from_text (''0 A 1 2'' @ [CHR 0x0A] @ ''1 B 3'' @ [CHR 0x0A] @ ''0 A 4'')) ''B''
     = Some \<lparr>x_arr = [0], y_arr = [3], z_arr = [0]\<rparr>
   \<and> map_of (accumulate (''0 A 1 2'' @ [CHR 0x0A] @ ''1 B 3'' @ [CHR 0x0A] @ ''0 A 4'')) ''A''
     = Some ([1, 2, 4], [])
   \<and> map_of (accumulate (''0 A 1 2'' @ [CHR 0x0A] @ ''1 B 3'' @ [CHR 0x0A] @ ''0 A 4'')) ''B''
     = Some ([], [3])"
proof -
  define T where "T = ''0 A 1 2'' @ [CHR 0x0A] @ ''1 B 3'' @ [CHR 0x0A] @ ''0 A 4''"
  define ta where "ta = \<lparr>x_arr = [1, 2, 4], y_arr = [0, 0, 0], z_arr = [0, 0, 0::real]\<rparr>"
  define tb where "tb = \<lparr>x_arr = [0], y_arr = [3], z_arr = [0::real]\<rparr>"
  have a: "map_of (BPMDataSDDS_from_text T) ''A'' = Some ta"
    unfolding T_def ta_def by code_simp
  have b: "map_of (BPMDataSDDS_from_text T) ''B'' = Some tb"
    unfolding T_def tb_def by code_simp
  have np: "\<forall>raw\<in>set (splitlines T). \<not> plane1_line ''A'' raw"
    unfolding T_def by code_simp
  from C5_mirroring [OF a] obtain cx cy where
    acc: "map_of (accumulate T) ''A'' = Some (cx, cy)" and
    imp: "(\<forall>raw\<in>set (splitlines T). \<not> plane1_line ''A'' raw) \<longrightarrow>
          cx \<noteq> [] \<and> cy = [] \<and> x_arr ta = cx \<and> y_arr ta = replicate (length (x_arr ta)) 0
          \<and> z_arr ta = replicate (length (x_arr ta)) 0"
    by blast
  from imp np have "cy = []" and "cx = x_arr ta" by blast+
  with acc have ra: "map_of (accumulate T) ''A'' = Some ([1, 2, 4], [])"
    by (simp add: ta_def)
  from C5_mirroring [OF b] obtain dx dy where
    accb: "map_of (accumulate T) ''B'' = Some (dx, dy)" and
    i1: "dx \<noteq> [] \<and> dy = [] \<longrightarrow> x_arr tb = dx \<and> y_arr tb = replicate (length dx) 0" and
    i2: "dx = [] \<and> dy \<noteq> [] \<longrightarrow> x_arr tb = replicate (length dy) 0 \<and> y_arr tb = dy" and
    i3: "dx \<noteq> [] \<and> dy \<noteq> [] \<longrightarrow> x_arr tb = dx \<and> y_arr tb = dy"
    by blast
  have accb': "map_of (accumulate T) ''B'' = Some ([], [3])"
    unfolding T_def by code_simp
  show ?thesis
    using a b ra accb' unfolding T_def ta_def tb_def by blast
qed

text \<open>
  Claim C10. Every BPM of a Dataset read from a row-format text has a non-empty \<^verbatim>\<open>x\<close>,
  a non-empty \<^verbatim>\<open>y\<close> and a \<^verbatim>\<open>z\<close> as long as \<^verbatim>\<open>x\<close>: a name enters the accumulator
  with at least one number, and the mirroring fills the empty one of \<^verbatim>\<open>x\<close> and \<^verbatim>\<open>y\<close>.
\<close>

theorem C10_row_dataset_nonempty:
  "\<forall>(name, t)\<in>set (BPMDataSDDS_from_text text).
     x_arr t \<noteq> [] \<and> y_arr t \<noteq> [] \<and> length (z_arr t) = length (x_arr t)
     \<and> (\<exists>cx cy. (name, (cx, cy)) \<in> set (accumulate text) \<and> (cx \<noteq> [] \<or> cy \<noteq> []))"
proof (clarify)
  fix name t
  assume "(name, t) \<in> set (BPMDataSDDS_from_text text)"
  then obtain comps where mem: "(name, comps) \<in> set (accumulate text)" and t: "t = build comps"
    by (auto simp: BPMDataSDDS_from_text_def)
  obtain cx cy where comps: "comps = (cx, cy)" by (cases comps)
  have ne: "cx \<noteq> [] \<or> cy \<noteq> []"
    using accumulate_nonempty [of "text"] mem comps by fastforce
  have "x_arr t \<noteq> [] \<and> y_arr t \<noteq> [] \<and> length (z_arr t) = length (x_arr t)"
    using build_arrays [of cx cy] ne unfolding t comps by auto
  with mem comps ne
  show "x_arr t \<noteq> [] \<and> y_arr t \<noteq> [] \<and> length (z_arr t) = length (x_arr t)
     \<and> (\<exists>cx cy. (name, (cx, cy)) \<in> set (accumulate text) \<and> (cx \<noteq> [] \<or> cy \<noteq> []))"
    by blast
qed

theorem C10_row_dataset_nonempty_witness:
  "BPMDataSDDS_from_text (''# header'' @ [CHR 0x0A] @ ''0 A 1 2'' @ [CHR 0x0A] @ ''1 B 3'' @ [CHR 0x0A] @ ''0 C x'')
     = [(''A'', \<lparr>x_arr = [1, 2], y_arr = [0, 0], z_arr = [0, 0]\<rparr>),
        (''B'', \<lparr>x_arr = [0], y_arr = [3], z_arr = [0]\<rparr>)]
   \<and> x_arr \<lparr>x_arr = [0], y_arr = [3], z_arr = [0::real]\<rparr> \<noteq> []
   \<and> (\<exists>cx cy. (''B'', (cx, cy))
         \<in> set (accumulate (''# header'' @ [CHR 0x0A] @ ''0 A 1 2'' @ [CHR 0x0A] @ ''1 B 3'' @ [CHR 0x0A] @ ''0 C x''))
        \<and> (cx \<noteq> [] \<or> cy \<noteq> []))"
proof -
  let ?T = "''# header'' @ [CHR 0x0A] @ ''0 A 1 2'' @ [CHR 0x0A] @ ''1 B 3'' @ [CHR 0x0A] @ ''0 C x''"
  have ev: "BPMDataSDDS_from_text ?T
     = [(''A'', \<lparr>x_arr = [1, 2], y_arr = [0, 0], z_arr = [0, 0]\<rparr>),
        (''B'', \<lparr>x_arr = [0], y_arr = [3], z_arr = [0]\<rparr>)]"
    by code_simp
  then have "(''B'', \<lparr>x_arr = [0], y_arr = [3], z_arr = [0]\<rparr>) \<in> set (BPMDataSDDS_from_text ?T)"
    by simp
  with C10_row_dataset_nonempty [of ?T]
  have "x_arr \<lparr>x_arr = [0], y_arr = [3], z_arr = [0::real]\<rparr> \<noteq> []
     \<and> (\<exists>cx cy. (''B'', (cx, cy)) \<in> set (accumulate ?T) \<and> (cx \<noteq> [] \<or> cy \<noteq> []))"
    by fast
  with ev show ?thesis by blast
qed

lemma to_data_single:
  "map_of [(name, t)] name = Some t \<Longrightarrow>
   to_data ops [(name, t)] =
     Inr ((if has_header ops
           then ''{{'' @ concat (map rstrip (the (header_lines ops))) @ ''},'' @ [CHR 0x0A]
           else [])
          @ ''{'' @ entry_text ops name (scaled ops (x_arr t)) (scaled ops (y_arr t))
                     (z_of ops (scaled ops (x_arr t)))
          @ [CHR 0x0A] @ ''}'' @ (if has_header ops then ''}'' else []))"
  by (simp add: to_data_def list_bpms_def entry_present Let_def)

text \<open>
  Claim C2. The two lines \<^verbatim>\<open>0 BPM1 1.0 2.0 3.0\<close> and \<^verbatim>\<open>1 BPM1 4.0 5.0 6.0\<close> are read
  as \<^verbatim>\<open>x = [1,2,3]\<close>, \<^verbatim>\<open>y = [4,5,6]\<close>, \<^verbatim>\<open>z = [0,0,0]\<close>; written with scale 1, without
  \<^verbatim>\<open>z\<close> and six values per line, the arrays formatted for \<^verbatim>\<open>BPM1\<close> are \<^verbatim>\<open>[2,3]\<close>,
  \<^verbatim>\<open>[5,6]\<close> and \<^verbatim>\<open>[0,0]\<close>, whatever the number format \<open>f\<close> and the fill value.
\<close>

theorem C2_end_to_end:
  "BPMDataSDDS_from_text (''0 BPM1 1.0 2.0 3.0'' @ [CHR 0x0A] @ ''1 BPM1 4.0 5.0 6.0'')
     = [(''BPM1'', \<lparr>x_arr = [1, 2, 3], y_arr = [4, 5, 6], z_arr = [0, 0, 0]\<rparr>)]
   \<and> written \<lparr>include_z = False, fmt = f, sep = '','', columns = Some 6, z_fill = zf,
               scale = 1, header_lines = None\<rparr>
        \<lparr>x_arr = [1, 2, 3], y_arr = [4, 5, 6], z_arr = [0, 0, 0]\<rparr>
     = \<lparr>x_arr = [2, 3], y_arr = [5, 6], z_arr = [0, 0]\<rparr>
   \<and> to_data \<lparr>include_z = False, fmt = f, sep = '','', columns = Some 6, z_fill = zf,
               scale = 1, header_lines = None\<rparr>
        (BPMDataSDDS_from_text (''0 BPM1 1.0 2.0 3.0'' @ [CHR 0x0A] @ ''1 BPM1 4.0 5.0 6.0''))
     = Inr (''{('' @ [CHR 0x22] @ ''BPM1'' @ [CHR 0x22] @ ''->'' @ [CHR 0x0A]
            @ ''{{'' @ f 2 @ '','' @ f 3 @ ''},'' @ [CHR 0x0A]
            @ ''{'' @ f 5 @ '','' @ f 6 @ ''},'' @ [CHR 0x0A]
            @ ''{'' @ f 0 @ '','' @ f 0 @ ''}})'' @ [CHR 0x0A] @ ''}'')"
proof -
  define ops where "ops = \<lparr>include_z = False, fmt = f, sep = '','', columns = Some 6,
    z_fill = zf, scale = 1, header_lines = None\<rparr>"
  define t where "t = \<lparr>x_arr = [1, 2, 3], y_arr = [4, 5, 6], z_arr = [0, 0, 0::real]\<rparr>"
  have rd: "BPMDataSDDS_from_text (''0 BPM1 1.0 2.0 3.0'' @ [CHR 0x0A] @ ''1 BPM1 4.0 5.0 6.0'')
     = [(''BPM1'', t)]"
    unfolding t_def by code_simp
  have w: "written ops t = \<lparr>x_arr = [2, 3], y_arr = [5, 6], z_arr = [0, 0]\<rparr>"
    by (simp add: written_def scaled_def z_of_def ops_def t_def)
  have fa: "\<And>a b. fmt_array ops [a, b] = f a @ '','' @ f b"
    by (simp add: fmt_array_def ops_def chunks_short)
  have sc: "scaled ops (x_arr t) = [1, 2, 3]" "scaled ops (y_arr t) = [4, 5, 6]"
    "z_of ops [1, 2, 3] = [0, 0, 0]"
    by (simp_all add: scaled_def z_of_def ops_def t_def)
  have hh: "\<not> has_header ops" by (simp add: has_header_def ops_def)
  have td: "to_data ops [(''BPM1'', t)]
     = Inr (''{('' @ [CHR 0x22] @ ''BPM1'' @ [CHR 0x22] @ ''->'' @ [CHR 0x0A]
            @ ''{{'' @ f 2 @ '','' @ f 3 @ ''},'' @ [CHR 0x0A]
            @ ''{'' @ f 5 @ '','' @ f 6 @ ''},'' @ [CHR 0x0A]
            @ ''{'' @ f 0 @ '','' @ f 0 @ ''}})'' @ [CHR 0x0A] @ ''}'')"
    by (subst to_data_single) (simp_all add: hh sc entry_text_def fa)
  show ?thesis
    using rd w td unfolding ops_def t_def by simp
qed

theorem C2_end_to_end_witness:
  "to_data \<lparr>include_z = False, fmt = fmt_digit, sep = '','', columns = Some 6, z_fill = 7,
               scale = 1, header_lines = None\<rparr>
        (BPMDataSDDS_from_text (''0 BPM1 1.0 2.0 3.0'' @ [CHR 0x0A] @ ''1 BPM1 4.0 5.0 6.0''))
     = Inr (''{('' @ [CHR 0x22] @ ''BPM1'' @ [CHR 0x22] @ ''->'' @ [CHR 0x0A]
            @ ''{{2,3},'' @ [CHR 0x0A] @ ''{5,6},'' @ [CHR 0x0A] @ ''{0,0}})'' @ [CHR 0x0A] @ ''}'')"
proof -
  have "fmt_digit 2 = ''2''" "fmt_digit 3 = ''3''" "fmt_digit 5 = ''5''" "fmt_digit 6 = ''6''"
    "fmt_digit 0 = ''0''"
    by (simp_all add: fmt_digit_def)
  then show ?thesis
    using C2_end_to_end [of fmt_digit 7, THEN conjunct2, THEN conjunct2] by simp
qed

section \<open>The statistical summary\<close>

lemma empty_pcts:
  "map_of (foldl (\<lambda>base p. AList.update (pct_key p) NaN base) acc ps) k =
     (if k \<in> pct_key ` set ps then Some NaN else map_of acc k)"
  by (induction ps arbitrary: acc) (auto simp: update_conv')

lemma stats_for_empty:
  "stats_for ps [] =
     Inr \<lparr>st_n = 0, st_mean = NaN, st_std = NaN, st_min = NaN, st_max = NaN, st_median = NaN,
          st_pcts = foldl (\<lambda>base p. AList.update (pct_key p) NaN base) [] ps\<rparr>"
  by (simp add: stats_for_def)

lemma add_percentiles_ok:
  "\<forall>p\<in>set ps. 0 \<le> p \<and> p \<le> 100 \<Longrightarrow> \<exists>out'. add_percentiles arr ps out = Inr out'"
  by (induction ps arbitrary: out) (auto simp: np_percentile_def Let_def)

lemma stats_for_ok:
  assumes "\<forall>p\<in>set ps. 0 \<le> p \<and> p \<le> 100"
  shows "\<exists>st. stats_for ps arr = Inr st"
proof (cases "arr = []")
  case True
  then show ?thesis by (simp add: stats_for_empty)
next
  case False
  from add_percentiles_ok [OF assms, of arr "[]"] obtain out' where
    "add_percentiles arr ps [] = Inr out'" by blast
  with False show ?thesis by (simp add: stats_for_def)
qed

lemma stats_for_std:
  assumes "stats_for ps arr = Inr st"
  shows "st_n st = length arr
       \<and> (length arr = 1 \<longrightarrow> st_std st = Val 0)
       \<and> (length arr > 1 \<longrightarrow> st_std st = Val (np_std arr 1))"
  using assms by (auto simp: stats_for_def split: if_splits sum.splits)

lemma rows_for_ok:
  assumes "\<forall>p\<in>set pairs. \<exists>arr. get data (fst p) (snd p) = Inr arr \<and> (\<exists>st. stats_for ps arr = Inr st)"
  shows "\<exists>rows. rows_for get data ps pairs = Inr rows
           \<and> map (\<lambda>r. (fst r, fst (snd r))) rows = pairs
           \<and> (\<forall>r\<in>set rows. \<exists>arr. get data (fst r) (fst (snd r)) = Inr arr
                                \<and> stats_for ps arr = Inr (snd (snd r)))"
  using assms
proof (induction pairs)
  case Nil
  show ?case by simp
next
  case (Cons p pairs)
  obtain name sel where p: "p = (name, sel)" by (cases p)
  from Cons.prems p obtain arr st where g: "get data name sel = Inr arr"
    and s: "stats_for ps arr = Inr st" by auto
  from Cons.IH Cons.prems obtain rows where r: "rows_for get data ps pairs = Inr rows"
    and m: "map (\<lambda>r. (fst r, fst (snd r))) rows = pairs"
    and a: "\<forall>r\<in>set rows. \<exists>arr. get data (fst r) (fst (snd r)) = Inr arr
                                \<and> stats_for ps arr = Inr (snd (snd r))"
    by auto
  have r1: "rows_for get data ps (p # pairs) = Inr ((name, sel, st) # rows)"
    by (simp add: p g s r)
  have r2: "map (\<lambda>r. (fst r, fst (snd r))) ((name, sel, st) # rows) = p # pairs"
    by (simp add: p m)
  have r3: "\<forall>r\<in>set ((name, sel, st) # rows). \<exists>arr. get data (fst r) (fst (snd r)) = Inr arr
                                \<and> stats_for ps arr = Inr (snd (snd r))"
    using a g s by simp
  from r1 r2 r3 have "rows_for get data ps (p # pairs) = Inr ((name, sel, st) # rows)
     \<and> map (\<lambda>r. (fst r, fst (snd r))) ((name, sel, st) # rows) = p # pairs
     \<and> (\<forall>r\<in>set ((name, sel, st) # rows). \<exists>arr. get data (fst r) (fst (snd r)) = Inr arr
                                \<and> stats_for ps arr = Inr (snd (snd r)))"
    by (intro conjI)
  then show ?case by (rule exI)
qed

lemma strip_lower_sel:
  "sel \<in> set [''x'', ''y'', ''z''] \<Longrightarrow> strip (lower sel) = sel"
  by (auto simp: strip_def rstrip_def lower_def lower_char_def is_space_def)

lemma sdds_get_present:
  "map_of data name = Some t \<Longrightarrow> sel \<in> set [''x'', ''y'', ''z''] \<Longrightarrow>
   BPMDataSDDS_get data name sel = Inr (component sel t)"
  using strip_lower_sel [of sel]
  by (auto simp: BPMDataSDDS_get_def Let_def dest: map_of_SomeD intro: rev_image_eqI)

lemma paren_get_present:
  "map_of data name = Some t \<Longrightarrow> sel \<in> set [''x'', ''y'', ''z''] \<Longrightarrow>
   BPMDataParen_get data name sel = Inr (component sel t)"
  using strip_lower_sel [of sel]
  by (auto simp: BPMDataParen_get_def Let_def)

lemma name_components_mem:
  assumes "p \<in> set (name_components data)"
  shows "snd p \<in> set [''x'', ''y'', ''z''] \<and> (\<exists>t. map_of data (fst p) = Some t)"
proof -
  from assms have sel: "snd p \<in> set [''x'', ''y'', ''z'']" and "fst p \<in> set (list_bpms data)"
    by (auto simp: name_components_def)
  then have "fst p \<in> fst ` set data" by (simp add: list_bpms_def)
  then obtain t where "map_of data (fst p) = Some t"
    by (metis map_of_eq_None_iff not_None_eq)
  with sel show ?thesis by blast
qed

lemma xyz_le: "''x'' \<le> ''y''" "''y'' \<le> ''z''" "''x'' \<le> ''z''"
  by (simp_all add: less_char_def)

lemma map_insort_key: "map f (insort_key f x xs) = insort (f x) (map f xs)"
  by (induction xs) auto

lemma map_sort_key: "map f (sort_key f xs) = sort (map f xs)"
  by (induction xs) (simp_all add: map_insort_key)

lemma sorted_triples:
  "sorted ns \<Longrightarrow> distinct ns \<Longrightarrow>
   sorted (concat (map (\<lambda>name. map (\<lambda>sel. (name, sel)) [''x'', ''y'', ''z'']) ns))"
proof (induction ns)
  case Nil
  show ?case by simp
next
  case (Cons n ns)
  define rest where "rest = concat (map (\<lambda>name. map (\<lambda>sel. (name, sel)) [''x'', ''y'', ''z'']) ns)"
  have lt: "\<forall>m\<in>set ns. n < m"
    using Cons.prems by (auto simp: less_le)
  have "\<forall>p\<in>set rest. n < fst p"
    unfolding rest_def using lt by auto
  then have up: "\<forall>p\<in>set rest. (n, ''x'') \<le> p \<and> (n, ''y'') \<le> p \<and> (n, ''z'') \<le> p"
    by (simp add: less_eq_prod_def)
  have in3: "(n, ''x'') \<le> (n, ''y'')" "(n, ''y'') \<le> (n, ''z'')" "(n, ''x'') \<le> (n, ''z'')"
    by (simp_all add: xyz_le less_eq_prod_def)
  have ih: "sorted rest" unfolding rest_def using Cons by simp
  have "sorted ((n, ''x'') # (n, ''y'') # (n, ''z'') # rest)"
    using up ih in3 by auto
  then show ?case unfolding rest_def by simp
qed

lemma name_components_sorted:
  "distinct (map fst data) \<Longrightarrow> sorted (name_components data)"
  unfolding name_components_def list_bpms_def by (rule sorted_triples) simp_all

lemma name_components_Nil: "name_components data = [] \<longleftrightarrow> data = []"
  by (cases data) (auto simp: name_components_def list_bpms_def dest: arg_cong [where f = length])

lemma sort_values_rows:
  assumes "rows \<noteq> []"
  shows "\<exists>sorted_rows. sort_values rows = Inr sorted_rows
           \<and> set sorted_rows = set rows
           \<and> map (\<lambda>r. (fst r, fst (snd r))) sorted_rows = sort (map (\<lambda>r. (fst r, fst (snd r))) rows)
           \<and> (sorted (map (\<lambda>r. (fst r, fst (snd r))) rows) \<longrightarrow> sorted_rows = rows)"
  using assms by (simp add: sort_values_def map_sort_key sort_key_id_if_sorted)

text \<open>
  Claim C8. For an empty component \<^verbatim>\<open>stats_for\<close> returns (it does not raise, whatever
  the percentiles) the count 0 and \<^verbatim>\<open>nan\<close> for the mean, the deviation, the minimum,
  the maximum, the median and every requested percentile. Whenever it returns, the
  count is the length, the deviation of a single sample is 0 and that of more samples
  is the square root of the sum of squared deviations from the mean over \<open>N - 1\<close>. For a
  Dataset that is not empty and percentiles in \<open>[0, 100]\<close>, \<^verbatim>\<open>summary_stats\<close> of both
  classes returns the same rows, sorted by BPM name and component, one per name and
  component (in the order of the loop when the names are distinct, as the keys of a
  dict are), each holding \<^verbatim>\<open>stats_for\<close> of that component. For the empty Dataset there
  is no BPM and no component, and \<^verbatim>\<open>summary_stats\<close> of both classes raises
  \<^verbatim>\<open>KeyError('BPM')\<close> when pandas sorts a frame that has no column.
\<close>

theorem C8_summary_stats:
  "(\<exists>st. stats_for ps [] = Inr st \<and> st_n st = 0 \<and> st_mean st = NaN \<and> st_std st = NaN
         \<and> st_min st = NaN \<and> st_max st = NaN \<and> st_median st = NaN
         \<and> (\<forall>p\<in>set ps. map_of (st_pcts st) (pct_key p) = Some NaN))
   \<and> (\<forall>arr st. stats_for ps arr = Inr st \<longrightarrow>
         st_n st = length arr
         \<and> (length arr = 1 \<longrightarrow> st_std st = Val 0)
         \<and> (1 < length arr \<longrightarrow>
              st_std st =
                Val (sqrt (sum_list (map (\<lambda>v. (v - sum_list arr / real (length arr))\<^sup>2) arr)
                           / (real (length arr) - 1)))))
   \<and> ((\<forall>p\<in>set ps. 0 \<le> p \<and> p \<le> 100) \<and> data \<noteq> [] \<longrightarrow>
        (\<exists>rows. BPMDataSDDS_summary_stats data ps = Inr rows
               \<and> BPMDataParen_summary_stats data ps = Inr rows
               \<and> map (\<lambda>r. (fst r, fst (snd r))) rows = sort (name_components data)
               \<and> (distinct (map fst data) \<longrightarrow>
                    map (\<lambda>r. (fst r, fst (snd r))) rows = name_components data)
               \<and> (\<forall>r\<in>set rows. \<exists>t. map_of data (fst r) = Some t
                     \<and> stats_for ps (component (fst (snd r)) t) = Inr (snd (snd r)))))
   \<and> BPMDataSDDS_summary_stats [] ps = Inl (KeyError ''BPM'')
   \<and> BPMDataParen_summary_stats [] ps = Inl (KeyError ''BPM'')"
proof (intro conjI)
  show "\<exists>st. stats_for ps [] = Inr st \<and> st_n st = 0 \<and> st_mean st = NaN \<and> st_std st = NaN
         \<and> st_min st = NaN \<and> st_max st = NaN \<and> st_median st = NaN
         \<and> (\<forall>p\<in>set ps. map_of (st_pcts st) (pct_key p) = Some NaN)"
    by (simp add: stats_for_empty empty_pcts)
next
  show "\<forall>arr st. stats_for ps arr = Inr st \<longrightarrow>
         st_n st = length arr
         \<and> (length arr = 1 \<longrightarrow> st_std st = Val 0)
         \<and> (1 < length arr \<longrightarrow>
              st_std st =
                Val (sqrt (sum_list (map (\<lambda>v. (v - sum_list arr / real (length arr))\<^sup>2) arr)
                           / (real (length arr) - 1))))"
    using stats_for_std by (simp add: np_std_def np_mean_def)
next
  show "BPMDataSDDS_summary_stats [] ps = Inl (KeyError ''BPM'')"
    by (simp add: BPMDataSDDS_summary_stats_def name_components_def list_bpms_def sort_values_def)
next
  show "BPMDataParen_summary_stats [] ps = Inl (KeyError ''BPM'')"
    by (simp add: BPMDataParen_summary_stats_def name_components_def list_bpms_def sort_values_def)
next
  show "(\<forall>p\<in>set ps. 0 \<le> p \<and> p \<le> 100) \<and> data \<noteq> [] \<longrightarrow>
        (\<exists>rows. BPMDataSDDS_summary_stats data ps = Inr rows
               \<and> BPMDataParen_summary_stats data ps = Inr rows
               \<and> map (\<lambda>r. (fst r, fst (snd r))) rows = sort (name_components data)
               \<and> (distinct (map fst data) \<longrightarrow>
                    map (\<lambda>r. (fst r, fst (snd r))) rows = name_components data)
               \<and> (\<forall>r\<in>set rows. \<exists>t. map_of data (fst r) = Some t
                     \<and> stats_for ps (component (fst (snd r)) t) = Inr (snd (snd r))))"
  proof
    assume both: "(\<forall>p\<in>set ps. 0 \<le> p \<and> p \<le> 100) \<and> data \<noteq> []"
    then have valid: "\<forall>p\<in>set ps. 0 \<le> p \<and> p \<le> 100" and ne: "data \<noteq> []" by simp_all
    have pre: "\<forall>p\<in>set (name_components data).
        \<exists>arr. BPMDataSDDS_get data (fst p) (snd p) = Inr arr \<and> (\<exists>st. stats_for ps arr = Inr st)"
    proof
      fix p assume "p \<in> set (name_components data)"
      from name_components_mem [OF this] obtain t where sel: "snd p \<in> set [''x'', ''y'', ''z'']"
        and t: "map_of data (fst p) = Some t" by blast
      have "BPMDataSDDS_get data (fst p) (snd p) = Inr (component (snd p) t)"
        using t sel by (rule sdds_get_present)
      moreover have "\<exists>st. stats_for ps (component (snd p) t) = Inr st"
        using valid by (rule stats_for_ok)
      ultimately show "\<exists>arr. BPMDataSDDS_get data (fst p) (snd p) = Inr arr
          \<and> (\<exists>st. stats_for ps arr = Inr st)" by blast
    qed
    have same: "\<And>pairs. set pairs \<subseteq> set (name_components data) \<Longrightarrow>
        rows_for BPMDataParen_get data ps pairs = rows_for BPMDataSDDS_get data ps pairs"
    proof -
      fix pairs show "set pairs \<subseteq> set (name_components data) \<Longrightarrow>
        rows_for BPMDataParen_get data ps pairs = rows_for BPMDataSDDS_get data ps pairs"
      proof (induction pairs)
        case Nil
        show ?case by simp
      next
        case (Cons p pairs)
        obtain name sel where p: "p = (name, sel)" by (cases p)
        from Cons.prems have "p \<in> set (name_components data)" by simp
        from name_components_mem [OF this] p obtain t where sel: "sel \<in> set [''x'', ''y'', ''z'']"
          and t: "map_of data name = Some t" by auto
        have g: "BPMDataParen_get data name sel = BPMDataSDDS_get data name sel"
          using sdds_get_present [OF t sel] paren_get_present [OF t sel] by simp
        have ih: "rows_for BPMDataParen_get data ps pairs = rows_for BPMDataSDDS_get data ps pairs"
          using Cons.IH Cons.prems by simp
        show ?case unfolding p rows_for.simps g ih by (rule refl)
      qed
    qed
    from rows_for_ok [of "name_components data" BPMDataSDDS_get data ps, OF pre]
    obtain rows0 where r: "rows_for BPMDataSDDS_get data ps (name_components data) = Inr rows0"
      and m: "map (\<lambda>r. (fst r, fst (snd r))) rows0 = name_components data"
      and a: "\<forall>r\<in>set rows0. \<exists>arr. BPMDataSDDS_get data (fst r) (fst (snd r)) = Inr arr
                                \<and> stats_for ps arr = Inr (snd (snd r))"
      by blast
    have r': "rows_for BPMDataParen_get data ps (name_components data) = Inr rows0"
      using r same [of "name_components data"] by simp
    have "rows0 \<noteq> []"
      using m ne name_components_Nil [of data] by auto
    from sort_values_rows [OF this] obtain rows where sv: "sort_values rows0 = Inr rows"
      and st: "set rows = set rows0"
      and mk: "map (\<lambda>r. (fst r, fst (snd r))) rows = sort (map (\<lambda>r. (fst r, fst (snd r))) rows0)"
      and sd: "sorted (map (\<lambda>r. (fst r, fst (snd r))) rows0) \<longrightarrow> rows = rows0"
      by blast
    have a': "\<forall>r\<in>set rows. \<exists>t. map_of data (fst r) = Some t
                     \<and> stats_for ps (component (fst (snd r)) t) = Inr (snd (snd r))"
    proof
      fix r assume "r \<in> set rows"
      then have rr: "r \<in> set rows0" using st by simp
      then have "(fst r, fst (snd r)) \<in> set (name_components data)"
        using m by (metis (no_types, lifting) image_eqI list.set_map)
      from name_components_mem [OF this] obtain t where sel: "fst (snd r) \<in> set [''x'', ''y'', ''z'']"
        and t: "map_of data (fst r) = Some t" by auto
      from a rr obtain arr where "BPMDataSDDS_get data (fst r) (fst (snd r)) = Inr arr"
        and s: "stats_for ps arr = Inr (snd (snd r))" by blast
      with sdds_get_present [OF t sel] have "arr = component (fst (snd r)) t" by simp
      with s t show "\<exists>t. map_of data (fst r) = Some t
                     \<and> stats_for ps (component (fst (snd r)) t) = Inr (snd (snd r))" by blast
    qed
    have c1: "BPMDataSDDS_summary_stats data ps = Inr rows"
      by (simp add: BPMDataSDDS_summary_stats_def r sv)
    have c2: "BPMDataParen_summary_stats data ps = Inr rows"
      by (simp add: BPMDataParen_summary_stats_def r' sv)
    have c3: "map (\<lambda>r. (fst r, fst (snd r))) rows = sort (name_components data)"
      using mk m by simp
    have c4: "distinct (map fst data) \<longrightarrow>
                    map (\<lambda>r. (fst r, fst (snd r))) rows = name_components data"
      using sd m name_components_sorted [of data] by auto
    have "BPMDataSDDS_summary_stats data ps = Inr rows
               \<and> BPMDataParen_summary_stats data ps = Inr rows
               \<and> map (\<lambda>r. (fst r, fst (snd r))) rows = sort (name_components data)
               \<and> (distinct (map fst data) \<longrightarrow>
                    map (\<lambda>r. (fst r, fst (snd r))) rows = name_components data)
               \<and> (\<forall>r\<in>set rows. \<exists>t. map_of data (fst r) = Some t
                     \<and> stats_for ps (component (fst (snd r)) t) = Inr (snd (snd r)))"
      using c1 c2 c3 c4 a' by (intro conjI)
    then show "\<exists>rows. BPMDataSDDS_summary_stats data ps = Inr rows
               \<and> BPMDataParen_summary_stats data ps = Inr rows
               \<and> map (\<lambda>r. (fst r, fst (snd r))) rows = sort (name_components data)
               \<and> (distinct (map fst data) \<longrightarrow>
                    map (\<lambda>r. (fst r, fst (snd r))) rows = name_components data)
               \<and> (\<forall>r\<in>set rows. \<exists>t. map_of data (fst r) = Some t
                     \<and> stats_for ps (component (fst (snd r)) t) = Inr (snd (snd r)))"
      by (rule exI)
  qed
qed

lemma pk: "pct_key 5 = ''p05''" "pct_key 50 = ''p50''" "pct_key 95 = ''p95''"
  by (simp_all add: pct_key_def py_int_def format_02d_def show_nat.simps)

lemma sf_empty: "stats_for [5, 50, 95] [] =
  Inr \<lparr>st_n = 0, st_mean = NaN, st_std = NaN, st_min = NaN, st_max = NaN, st_median = NaN,
       st_pcts = [(''p05'', NaN), (''p50'', NaN), (''p95'', NaN)]\<rparr>"
  by (simp add: stats_for_def pk)

lemma sf_one: "stats_for [5, 50, 95] [4] =
  Inr \<lparr>st_n = 1, st_mean = Val 4, st_std = Val 0, st_min = Val 4, st_max = Val 4, st_median = Val 4,
       st_pcts = [(''p05'', Val 4), (''p50'', Val 4), (''p95'', Val 4)]\<rparr>"
  by (simp add: stats_for_def pk np_percentile_def np_mean_def np_min_def np_max_def np_median_def Let_def)

lemma sf_two: "stats_for [5, 50, 95] [3, 1] =
  Inr \<lparr>st_n = 2, st_mean = Val 2, st_std = Val (sqrt 2), st_min = Val 1, st_max = Val 3, st_median = Val 2,
       st_pcts = [(''p05'', Val (11 / 10)), (''p50'', Val 2), (''p95'', Val (29 / 10))]\<rparr>"
  by (simp add: stats_for_def pk np_percentile_def np_mean_def np_std_def np_min_def np_max_def
      np_median_def Let_def power2_eq_square)

theorem C8_summary_stats_witness:
  "BPMDataSDDS_summary_stats [(''A'', \<lparr>x_arr = [], y_arr = [4], z_arr = [3, 1]\<rparr>)] [5, 50, 95]
     = Inr [(''A'', ''x'',
             \<lparr>st_n = 0, st_mean = NaN, st_std = NaN, st_min = NaN, st_max = NaN, st_median = NaN,
              st_pcts = [(''p05'', NaN), (''p50'', NaN), (''p95'', NaN)]\<rparr>),
            (''A'', ''y'',
             \<lparr>st_n = 1, st_mean = Val 4, st_std = Val 0, st_min = Val 4, st_max = Val 4,
              st_median = Val 4,
              st_pcts = [(''p05'', Val 4), (''p50'', Val 4), (''p95'', Val 4)]\<rparr>),
            (''A'', ''z'',
             \<lparr>st_n = 2, st_mean = Val 2, st_std = Val (sqrt 2), st_min = Val 1, st_max = Val 3,
              st_median = Val 2,
              st_pcts = [(''p05'', Val (11 / 10)), (''p50'', Val 2), (''p95'', Val (29 / 10))]\<rparr>)]
   \<and> BPMDataParen_summary_stats [(''A'', \<lparr>x_arr = [], y_arr = [4], z_arr = [3, 1]\<rparr>)] [5, 50, 95]
     = BPMDataSDDS_summary_stats [(''A'', \<lparr>x_arr = [], y_arr = [4], z_arr = [3, 1]\<rparr>)] [5, 50, 95]
   \<and> BPMDataSDDS_summary_stats [] [5, 50, 95] = Inl (KeyError ''BPM'')
   \<and> BPMDataParen_summary_stats [] [5, 50, 95] = Inl (KeyError ''BPM'')"
proof -
  define D :: dataset where "D = [(''A'', \<lparr>x_arr = [], y_arr = [4], z_arr = [3, 1]\<rparr>)]"
  define ps :: "real list" where "ps = [5, 50, 95]"
  define R where "R = [(''A'', ''x'',
             \<lparr>st_n = 0, st_mean = NaN, st_std = NaN, st_min = NaN, st_max = NaN, st_median = NaN,
              st_pcts = [(''p05'', NaN), (''p50'', NaN), (''p95'', NaN)]\<rparr>),
            (''A'', ''y'',
             \<lparr>st_n = 1, st_mean = Val 4, st_std = Val 0, st_min = Val 4, st_max = Val 4,
              st_median = Val 4,
              st_pcts = [(''p05'', Val 4), (''p50'', Val 4), (''p95'', Val 4)]\<rparr>),
            (''A'', ''z'',
             \<lparr>st_n = 2, st_mean = Val 2, st_std = Val (sqrt 2), st_min = Val 1, st_max = Val 3,
              st_median = Val 2,
              st_pcts = [(''p05'', Val (11 / 10)), (''p50'', Val 2), (''p95'', Val (29 / 10))]\<rparr>)]"
  have nc: "name_components D = [(''A'', ''x''), (''A'', ''y''), (''A'', ''z'')]"
    by (simp add: name_components_def list_bpms_def D_def)
  have m: "map_of D ''A'' = Some \<lparr>x_arr = [], y_arr = [4], z_arr = [3, 1]\<rparr>"
    by (simp add: D_def)
  have g: "BPMDataSDDS_get D ''A'' ''x'' = Inr []" "BPMDataSDDS_get D ''A'' ''y'' = Inr [4]"
    "BPMDataSDDS_get D ''A'' ''z'' = Inr [3, 1]"
    using sdds_get_present [OF m, of "''x''"] sdds_get_present [OF m, of "''y''"]
      sdds_get_present [OF m, of "''z''"]
    by (simp_all add: component_def)
  have rf: "rows_for BPMDataSDDS_get D ps (name_components D) = Inr R"
    unfolding nc ps_def R_def by (simp add: g sf_empty sf_one sf_two)
  have "sorted (map (\<lambda>r. (fst r, fst (snd r))) R)"
    unfolding R_def by (simp add: less_eq_prod_def xyz_le)
  then have sv: "sort_values R = Inr R"
    by (simp add: sort_values_def sort_key_id_if_sorted) (simp add: R_def)
  have ev: "BPMDataSDDS_summary_stats D ps = Inr R"
    unfolding BPMDataSDDS_summary_stats_def rf by (simp add: sv)
  have valid: "(\<forall>p\<in>set ps. 0 \<le> p \<and> p \<le> 100) \<and> D \<noteq> []" by (simp add: ps_def D_def)
  have "(\<forall>p\<in>set ps. 0 \<le> p \<and> p \<le> 100) \<and> D \<noteq> [] \<longrightarrow>
        (\<exists>rows. BPMDataSDDS_summary_stats D ps = Inr rows
               \<and> BPMDataParen_summary_stats D ps = Inr rows
               \<and> map (\<lambda>r. (fst r, fst (snd r))) rows = sort (name_components D)
               \<and> (distinct (map fst D) \<longrightarrow>
                    map (\<lambda>r. (fst r, fst (snd r))) rows = name_components D)
               \<and> (\<forall>r\<in>set rows. \<exists>t. map_of D (fst r) = Some t
                     \<and> stats_for ps (component (fst (snd r)) t) = Inr (snd (snd r))))"
    using C8_summary_stats [of ps D] by (elim conjE)
  moreover have e1: "BPMDataSDDS_summary_stats [] ps = Inl (KeyError ''BPM'')"
    using C8_summary_stats [of ps D] by (elim conjE)
  moreover have e2: "BPMDataParen_summary_stats [] ps = Inl (KeyError ''BPM'')"
    using C8_summary_stats [of ps D] by (elim conjE)
  moreover note valid
  ultimately obtain rows where "BPMDataSDDS_summary_stats D ps = Inr rows"
    and "BPMDataParen_summary_stats D ps = Inr rows" by blast
  then have "BPMDataParen_summary_stats D ps = BPMDataSDDS_summary_stats D ps" by simp
  with ev e1 e2 show ?thesis unfolding D_def ps_def R_def by (intro conjI)
qed

section \<open>Line continuations\<close>

lemma span_append:
  assumes "post = [] \<or> \<not> P (hd post)"
  shows "takeWhile P (cs @ post) = takeWhile P cs \<and> dropWhile P (cs @ post) = dropWhile P cs @ post"
proof (induction cs)
  case Nil
  show ?case using assms by (cases post) simp_all
next
  case (Cons c cs)
  then show ?case by simp
qed

lemma space_append:
  assumes "post = [] \<or> \<not> is_space (hd post)"
  shows "takeWhile is_space (cs @ post) = takeWhile is_space cs"
    and "dropWhile is_space (cs @ post) = dropWhile is_space cs @ post"
  using span_append [where P = is_space, OF assms] by simp_all

lemma jlc_append:
  assumes "post = [] \<or> \<not> is_space (hd post)"
  shows "join_line_continuations (pre @ post)
         = join_line_continuations pre @ join_line_continuations post"
proof (induction pre rule: join_line_continuations.induct)
  case 1
  show ?case by simp
next
  case (2 c cs)
  show ?case
  proof (cases "c = CHR 0x5C \<and> CHR 0x0A \<in> set (takeWhile is_space cs)")
    case True
    then show ?thesis
      using 2(1) space_append [OF assms, of cs] by simp
  next
    case False
    then show ?thesis
      using 2(2) space_append [OF assms, of cs] by auto
  qed
qed

lemma jlc_continuation:
  assumes "\<forall>c\<in>set ws. is_space c" and "CHR 0x0A \<in> set ws"
    and "post = [] \<or> \<not> is_space (hd post)"
  shows "join_line_continuations (CHR 0x5C # ws @ post) = join_line_continuations post"
proof -
  have "takeWhile is_space ws = ws" using assms(1) by (simp add: takeWhile_eq_all_conv)
  moreover have "dropWhile is_space ws = []" using assms(1) by simp
  ultimately have "takeWhile is_space (ws @ post) = ws" "dropWhile is_space (ws @ post) = post"
    using space_append [OF assms(3), of ws] by simp_all
  then show ?thesis using assms(2) by simp
qed

lemma jlc_split:
  assumes "\<forall>c\<in>set ws. is_space c" and "CHR 0x0A \<in> set ws"
    and "post = [] \<or> \<not> is_space (hd post)"
  shows "join_line_continuations (pre @ [CHR 0x5C] @ ws @ post) = join_line_continuations (pre @ post)"
proof -
  have "\<not> is_space (CHR 0x5C)" by (simp add: is_space_def)
  then have "join_line_continuations (pre @ (CHR 0x5C # ws @ post))
      = join_line_continuations pre @ join_line_continuations (CHR 0x5C # ws @ post)"
    by (intro jlc_append) simp
  also have "\<dots> = join_line_continuations pre @ join_line_continuations post"
    by (simp only: jlc_continuation [OF assms])
  also have "\<dots> = join_line_continuations (pre @ post)"
    by (simp only: jlc_append [OF assms(3)])
  finally show ?thesis by simp
qed

text \<open>Whitespace before the backslash is not part of the continuation and stays.\<close>

lemma jlc_keeps_space_before:
  "join_line_continuations (''12 '' @ [CHR 0x5C, CHR 0x0A] @ ''345'') = ''12 345''"
  by (simp add: is_space_def)

text \<open>
  Claim C9. A backslash followed by whitespace that holds a newline, up to the next
  character that is not whitespace, is removed before the text is matched: the text
  with the continuation and the text without it are parsed to the same Dataset. In
  particular \<^verbatim>\<open>12\<close>, backslash, newline, \<^verbatim>\<open>345\<close> is read as \<^verbatim>\<open>12345\<close>.
\<close>

theorem C9_line_continuation:
  assumes "\<forall>c\<in>set ws. is_space c" and "CHR 0x0A \<in> set ws"
    and "post = [] \<or> \<not> is_space (hd post)"
  shows "BPMDataParen_from_text (pre @ [CHR 0x5C] @ ws @ post) = BPMDataParen_from_text (pre @ post)
       \<and> join_line_continuations (''12'' @ [CHR 0x5C, CHR 0x0A] @ ''345'') = ''12345''
       \<and> parse_array (join_line_continuations (''12'' @ [CHR 0x5C, CHR 0x0A] @ ''345''))
           = parse_array ''12345''"
proof -
  have a: "BPMDataParen_from_text (pre @ [CHR 0x5C] @ ws @ post) = BPMDataParen_from_text (pre @ post)"
    unfolding BPMDataParen_from_text_def by (simp only: jlc_split [OF assms])
  have b: "join_line_continuations (''12'' @ [CHR 0x5C, CHR 0x0A] @ ''345'') = ''12345''"
    by (simp add: is_space_def)
  show ?thesis using a b by simp
qed

theorem C9_line_continuation_witness:
  "BPMDataParen_from_text
     (''('' @ [CHR 0x22] @ ''A'' @ [CHR 0x22] @ ''->{{12'' @ [CHR 0x5C] @ [CHR 0x20, CHR 0x0A, CHR 0x20]
      @ ''345,6},{1},{2}})'')
   = [(''A'', \<lparr>x_arr = [12345, 6], y_arr = [1], z_arr = [2]\<rparr>)]"
proof -
  define pre where "pre = ''('' @ [CHR 0x22] @ ''A'' @ [CHR 0x22] @ ''->{{12''"
  define ws where "ws = [CHR 0x20, CHR 0x0A, CHR 0x20]"
  define post where "post = ''345,6},{1},{2}})''"
  have sp: "\<forall>c\<in>set ws. is_space c" by (simp add: is_space_def ws_def)
  have nl: "CHR 0x0A \<in> set ws" by (simp add: ws_def)
  have po: "post = [] \<or> \<not> is_space (hd post)" by (simp add: is_space_def post_def)
  have split: "BPMDataParen_from_text (pre @ [CHR 0x5C] @ ws @ post)
      = BPMDataParen_from_text (pre @ post)"
    using C9_line_continuation [OF sp nl po] by (rule conjunct1)
  have j: "join_line_continuations (pre @ post) = pre @ post"
    unfolding pre_def post_def by code_simp
  have f: "finditer (pre @ post) = [(''A'', ''12345,6'', ''1'', ''2'')]"
    unfolding pre_def post_def by code_simp
  have t: "findall ''12345,6'' = [''12345'', ''6'']" "findall ''1'' = [''1'']"
    "findall ''2'' = [''2'']"
    by code_simp+
  have v: "float_of ''12345'' = 12345" "float_of ''6'' = 6" "float_of ''1'' = 1"
    "float_of ''2'' = 2"
    by (simp_all add: float_of_def opt_sign_def is_sign_def is_digit_def digits_val_def
        digit_val_def)
  have "BPMDataParen_from_text (pre @ post)
      = [(''A'', \<lparr>x_arr = [12345, 6], y_arr = [1], z_arr = [2]\<rparr>)]"
    unfolding BPMDataParen_from_text_def j f by (simp add: parse_array_def t v)
  with split show ?thesis unfolding pre_def ws_def post_def by simp
qed

section \<open>Numeric tokens in a formatted array\<close>

lemma digit_append:
  assumes "rest = [] \<or> neutral (hd rest)"
  shows "takeWhile is_digit (s @ rest) = takeWhile is_digit s"
    and "dropWhile is_digit (s @ rest) = dropWhile is_digit s @ rest"
proof -
  from assms have "rest = [] \<or> \<not> is_digit (hd rest)" by (auto simp: neutral_def)
  from span_append [where P = is_digit, OF this]
  show "takeWhile is_digit (s @ rest) = takeWhile is_digit s"
    and "dropWhile is_digit (s @ rest) = dropWhile is_digit s @ rest" by simp_all
qed

lemma digits1_append:
  assumes "rest = [] \<or> neutral (hd rest)"
  shows "digits1 (s @ rest) = map_option (\<lambda>p. (fst p, snd p @ rest)) (digits1 s)"
  by (simp add: digits1_def digit_append [OF assms])

lemma opt_sign_append:
  assumes "rest = [] \<or> neutral (hd rest)"
  shows "opt_sign (s @ rest) = (fst (opt_sign s), snd (opt_sign s) @ rest)"
proof (cases s)
  case Nil
  then show ?thesis using assms by (cases rest) (auto simp: opt_sign_def neutral_def)
next
  case (Cons c r)
  then show ?thesis by (simp add: opt_sign_def)
qed

lemma mantissa_append:
  assumes "rest = [] \<or> neutral (hd rest)"
  shows "mantissa (s @ rest) = map_option (\<lambda>p. (fst p, snd p @ rest)) (mantissa s)"
proof -
  define d where "d = takeWhile is_digit s"
  define r where "r = dropWhile is_digit s"
  define inner where
    "inner = (\<lambda>q. case q of [] \<Rightarrow> None | c # r' \<Rightarrow> if c = CHR ''.'' then digits1 r' else None)"
  have m1: "mantissa s =
      (case inner r of Some (f, r'') \<Rightarrow> Some (d @ ''.'' @ f, r'')
       | None \<Rightarrow> if d = [] then None else Some (d, r))"
    unfolding mantissa_def Let_def d_def r_def inner_def by (rule refl)
  have m2: "mantissa (s @ rest) =
      (case inner (r @ rest) of Some (f, r'') \<Rightarrow> Some (d @ ''.'' @ f, r'')
       | None \<Rightarrow> if d = [] then None else Some (d, r @ rest))"
    unfolding mantissa_def Let_def digit_append [OF assms] d_def r_def inner_def by (rule refl)
  have inn: "inner (r @ rest) = map_option (\<lambda>p. (fst p, snd p @ rest)) (inner r)"
  proof (cases r)
    case Nil
    then show ?thesis using assms by (cases rest) (auto simp: inner_def neutral_def)
  next
    case (Cons c r')
    then show ?thesis by (simp add: inner_def digits1_append [OF assms])
  qed
  show ?thesis unfolding m1 m2 inn by (cases "inner r") auto
qed

lemma exponent_append:
  assumes "rest = [] \<or> neutral (hd rest)"
  shows "exponent (s @ rest) = (fst (exponent s), snd (exponent s) @ rest)"
proof (cases s)
  case Nil
  then show ?thesis using assms by (cases rest) (auto simp: exponent_def neutral_def)
next
  case (Cons c r)
  show ?thesis
  proof (cases "digits1 (snd (opt_sign r))")
    case None
    with Cons show ?thesis
      by (simp add: exponent_def opt_sign_append [OF assms] digits1_append [OF assms])
  next
    case (Some p)
    with Cons show ?thesis
      by (cases p) (simp add: exponent_def opt_sign_append [OF assms] digits1_append [OF assms])
  qed
qed

lemma num_match_append:
  assumes "rest = [] \<or> neutral (hd rest)"
  shows "num_match (s @ rest) = map_option (\<lambda>p. (fst p, snd p @ rest)) (num_match s)"
proof (cases "mantissa (snd (opt_sign s))")
  case None
  then show ?thesis
    by (simp add: num_match_def opt_sign_append [OF assms] mantissa_append [OF assms])
next
  case (Some p)
  then show ?thesis
    by (cases p)
       (simp add: num_match_def opt_sign_append [OF assms] mantissa_append [OF assms]
          exponent_append [OF assms])
qed

lemma num_match_token:
  assumes "is_token t" and "rest = [] \<or> neutral (hd rest)"
  shows "num_match (t @ rest) = Some (t, rest)"
  using assms(1) by (simp add: num_match_append [OF assms(2)] is_token_def)

lemma num_match_neutral: "neutral c \<Longrightarrow> num_match (c # rest) = None"
  by (simp add: num_match_def opt_sign_def mantissa_def neutral_def Let_def)

lemma is_token_not_Nil: "is_token t \<Longrightarrow> t \<noteq> []"
  by (auto simp: is_token_def num_match_def opt_sign_def mantissa_def Let_def)

lemma findall_token:
  assumes "is_token t" and "rest = [] \<or> neutral (hd rest)"
  shows "findall (t @ rest) = t # findall rest"
  using num_match_token [OF assms] is_token_not_Nil [OF assms(1)]
  by (subst findall.simps) simp

lemma findall_neutral:
  "\<forall>c\<in>set s. neutral c \<Longrightarrow> findall (s @ rest) = findall rest"
proof (induction s)
  case Nil
  show ?case by simp
next
  case (Cons c s)
  then have "findall ((c # s) @ rest) = findall (s @ rest)"
    by (subst findall.simps) (simp add: num_match_neutral)
  with Cons show ?case by simp
qed

lemma findall_Nil: "findall [] = []"
  by (simp add: findall.simps)

lemma neutral_sep: "c = CHR '','' \<or> is_space c \<Longrightarrow> neutral c"
  by (auto simp: neutral_def is_space_def is_digit_def is_sign_def)

lemma digits1_chars: "digits1 s = Some (d, r) \<Longrightarrow> \<forall>c\<in>set d. is_digit c"
  by (auto simp: digits1_def split: if_splits dest: set_takeWhileD)

lemma opt_sign_chars: "\<forall>c\<in>set (fst (opt_sign s)). is_sign c"
  by (cases s) (auto simp: opt_sign_def)

lemma mantissa_chars:
  assumes "mantissa s = Some (m, r)"
  shows "\<forall>c\<in>set m. is_digit c \<or> c = CHR ''.''"
proof -
  define d where "d = takeWhile is_digit s"
  define inner where
    "inner = (case dropWhile is_digit s of [] \<Rightarrow> None
              | c # r' \<Rightarrow> if c = CHR ''.'' then digits1 r' else None)"
  have m1: "mantissa s =
      (case inner of Some (f, r'') \<Rightarrow> Some (d @ ''.'' @ f, r'')
       | None \<Rightarrow> if d = [] then None else Some (d, dropWhile is_digit s))"
    unfolding mantissa_def Let_def d_def inner_def by (rule refl)
  have dd: "\<forall>c\<in>set d. is_digit c" unfolding d_def by (auto dest: set_takeWhileD)
  show ?thesis
  proof (cases inner)
    case None
    with assms m1 have "m = d" by (auto split: if_splits)
    with dd show ?thesis by simp
  next
    case (Some p)
    obtain f r'' where p: "p = (f, r'')" by (cases p)
    from Some p have "\<exists>r'. digits1 r' = Some (f, r'')"
      unfolding inner_def by (auto split: list.splits if_splits)
    then have "\<forall>c\<in>set f. is_digit c" using digits1_chars by blast
    moreover from assms m1 Some p have "m = d @ ''.'' @ f" by simp
    ultimately show ?thesis using dd by auto
  qed
qed

lemma exponent_chars:
  "\<forall>c\<in>set (fst (exponent s)). is_digit c \<or> is_sign c \<or> c = CHR ''E'' \<or> c = CHR ''e''"
proof (cases s)
  case Nil
  then show ?thesis by (simp add: exponent_def)
next
  case (Cons c r)
  show ?thesis
  proof (cases "digits1 (snd (opt_sign r))")
    case None
    with Cons show ?thesis by (simp add: exponent_def)
  next
    case (Some p)
    obtain d r2 where p: "p = (d, r2)" by (cases p)
    from Some p have "\<forall>c\<in>set d. is_digit c" using digits1_chars by blast
    with Cons Some p opt_sign_chars [of r] show ?thesis
      by (auto simp: exponent_def)
  qed
qed

lemma token_chars:
  assumes "is_token t"
  shows "\<forall>c\<in>set t. \<not> neutral c"
proof -
  from assms obtain m r1 where m: "mantissa (snd (opt_sign t)) = Some (m, r1)"
    and t: "t = fst (opt_sign t) @ m @ fst (exponent r1)"
    by (auto simp: is_token_def num_match_def split: option.splits)
  have "\<forall>c\<in>set (fst (opt_sign t) @ m @ fst (exponent r1)). \<not> neutral c"
    using opt_sign_chars [of t] mantissa_chars [OF m] exponent_chars [of r1]
    by (auto simp: neutral_def)
  with t show ?thesis by simp
qed

lemma findall_join:
  assumes "\<forall>t\<in>set ts. is_token t" and "s \<noteq> []" and "\<forall>c\<in>set s. neutral c"
    and "rest = [] \<or> neutral (hd rest)"
  shows "findall (join s ts @ rest) = ts @ findall rest"
  using assms(1)
proof (induction ts)
  case Nil
  show ?case by simp
next
  case (Cons p ts)
  show ?case
  proof (cases ts)
    case Nil
    have "findall (p @ rest) = p # findall rest"
      using Cons.prems assms(4) by (intro findall_token) simp_all
    with Nil show ?thesis by simp
  next
    case (Cons q ps)
    obtain c s' where s: "s = c # s'" using assms(2) by (cases s) auto
    have hd: "s @ join s ts @ rest = [] \<or> neutral (hd (s @ join s ts @ rest))"
      using assms(3) unfolding s by simp
    have "findall (p @ (s @ join s ts @ rest)) = p # findall (s @ join s ts @ rest)"
      using Cons.prems hd by (intro findall_token) simp_all
    also have "findall (s @ join s ts @ rest) = findall (join s ts @ rest)"
      using assms(3) by (rule findall_neutral)
    also have "\<dots> = ts @ findall rest"
      using Cons.IH Cons.prems by simp
    finally show ?thesis using Cons by simp
  qed
qed

lemma findall_join_join:
  assumes "\<forall>ch\<in>set cs. \<forall>t\<in>set ch. is_token t" and "s \<noteq> []" and "\<forall>c\<in>set s. neutral c"
    and "s2 \<noteq> []" and "\<forall>c\<in>set s2. neutral c"
  shows "findall (join s2 (map (join s) cs)) = concat cs"
  using assms(1)
proof (induction cs)
  case Nil
  show ?case by (simp add: findall_Nil)
next
  case (Cons ch cs)
  show ?case
  proof (cases cs)
    case Nil
    have "findall (join s ch @ []) = ch @ findall []"
      using Cons.prems assms(2,3) by (intro findall_join) simp_all
    with Nil show ?thesis by (simp add: findall_Nil)
  next
    case (Cons ch' cs')
    obtain c s2' where s2: "s2 = c # s2'" using assms(4) by (cases s2) auto
    have hd: "s2 @ join s2 (map (join s) cs) = [] \<or> neutral (hd (s2 @ join s2 (map (join s) cs)))"
      using assms(5) unfolding s2 by simp
    have "findall (join s ch @ (s2 @ join s2 (map (join s) cs)))
        = ch @ findall (s2 @ join s2 (map (join s) cs))"
      using Cons.prems assms(2,3) hd by (intro findall_join) simp_all
    also have "findall (s2 @ join s2 (map (join s) cs)) = findall (join s2 (map (join s) cs))"
      using assms(5) by (rule findall_neutral)
    also have "\<dots> = concat cs"
      using Cons.IH Cons.prems by simp
    finally show ?thesis using Cons by simp
  qed
qed

lemma concat_chunks: "0 < n \<Longrightarrow> concat (chunks n vals) = vals"
proof (induction n vals rule: chunks.induct)
  case (1 n vals)
  show ?case
  proof (cases "vals = []")
    case True
    then show ?thesis by (simp add: chunks.simps)
  next
    case False
    with 1 have "concat (chunks n (drop n vals)) = drop n vals" by simp
    with False 1(2) show ?thesis by (subst chunks.simps) simp
  qed
qed

lemma set_chunks: "ch \<in> set (chunks n vals) \<Longrightarrow> set ch \<subseteq> set vals"
proof (induction n vals rule: chunks.induct)
  case (1 n vals)
  show ?case
  proof (cases "n = 0 \<or> vals = []")
    case True
    with 1(2) show ?thesis by (simp add: chunks.simps)
  next
    case False
    with 1(2) have "ch = take n vals \<or> ch \<in> set (chunks n (drop n vals))"
      by (subst (asm) chunks.simps) auto
    then show ?thesis
    proof
      assume "ch = take n vals"
      then show ?thesis by (auto dest: in_set_takeD)
    next
      assume "ch \<in> set (chunks n (drop n vals))"
      with 1(1) False have "set ch \<subseteq> set (drop n vals)" by simp
      then show ?thesis by (auto dest: in_set_dropD)
    qed
  qed
qed

lemma findall_fmt_array:
  assumes "\<forall>v\<in>set a. is_token (fmt ops v)" and "sep_ok (sep ops)"
  shows "findall (fmt_array ops a) = map (fmt ops) a"
proof -
  have s1: "sep ops \<noteq> []" and s2: "\<forall>c\<in>set (sep ops). neutral c"
    using assms(2) neutral_sep by (auto simp: sep_ok_def)
  have n2: "\<forall>c\<in>set [CHR '','', CHR 0x0A]. neutral c"
    by (simp add: neutral_def is_digit_def is_sign_def)
  have toks: "\<forall>t\<in>set (map (fmt ops) a). is_token t" using assms(1) by simp
  have plain: "findall (join (sep ops) (map (fmt ops) a)) = map (fmt ops) a"
    using findall_join [OF toks s1 s2, of "[]"] by (simp add: findall_Nil)
  show ?thesis
  proof (cases "\<exists>c. columns ops = Some c \<and> 0 < c")
    case False
    then show ?thesis by (cases "columns ops") (auto simp: fmt_array_def plain)
  next
    case True
    then obtain c where c: "columns ops = Some c" "0 < c" by blast
    have ch: "\<forall>ch\<in>set (chunks (nat c) (map (fmt ops) a)). \<forall>t\<in>set ch. is_token t"
      using set_chunks toks by blast
    have "findall (join [CHR '','', CHR 0x0A] (map (join (sep ops)) (chunks (nat c) (map (fmt ops) a))))
        = concat (chunks (nat c) (map (fmt ops) a))"
      using ch s1 s2 n2 by (intro findall_join_join) simp_all
    also have "\<dots> = map (fmt ops) a" using c(2) by (simp add: concat_chunks)
    finally have f: "findall (join [CHR '','', CHR 0x0A]
        (map (join (sep ops)) (chunks (nat c) (map (fmt ops) a)))) = map (fmt ops) a" .
    have e: "chunks (nat c) (map (fmt ops) a) = [] \<longrightarrow> a = []"
      using concat_chunks [of "nat c" "map (fmt ops) a"] c(2) by auto
    show ?thesis using c f e by (simp add: fmt_array_def Let_def findall_Nil)
  qed
qed

section \<open>Matching one written entry\<close>

lemma lit_Nil: "lit [] s = Some s"
  by (simp add: lit_def)

lemma lit_Cons: "lit (c # p) (d # s) = (if c = d then lit p s else None)"
  by (simp add: lit_def)

lemma lit_empty: "lit (c # p) [] = None"
  by (simp add: lit_def)

lemma skip_ws_space: "is_space c \<Longrightarrow> skip_ws (c # s) = skip_ws s"
  by (simp add: skip_ws_def)

lemma skip_ws_other: "\<not> is_space c \<Longrightarrow> skip_ws (c # s) = c # s"
  by (simp add: skip_ws_def)

lemma name_group_ok:
  assumes "name_ok name"
  shows "name_group (name @ CHR 0x22 # s) = Some (name, s)"
proof -
  from assms obtain c cs where n: "name = c # cs" and c: "\<not> is_space c"
    and q: "CHR 0x22 \<notin> set name"
    by (cases name) (auto simp: name_ok_def)
  have w: "takeWhile is_space (name @ CHR 0x22 # s) = []"
    "dropWhile is_space (name @ CHR 0x22 # s) = name @ CHR 0x22 # s"
    using c by (simp_all add: n)
  have q': "\<And>x. x \<in> set name \<Longrightarrow> x \<noteq> CHR 0x22" using q by auto
  have t: "takeWhile (\<lambda>c. c \<noteq> CHR 0x22) (name @ CHR 0x22 # s) = name"
    by (simp add: takeWhile_append2 q')
  have d: "dropWhile (\<lambda>c. c \<noteq> CHR 0x22) (name @ CHR 0x22 # s) = CHR 0x22 # s"
    by (simp add: dropWhile_append2 q')
  show ?thesis
    unfolding name_group_def Let_def w t d using n by simp
qed

lemma body_group_ok:
  assumes "\<forall>c\<in>set b. not_brace c"
  shows "body_group (CHR ''{'' # b @ CHR ''}'' # s) = Some (dropWhile is_space b, s)"
proof -
  have ns: "CHR ''}'' # s = [] \<or> \<not> is_space (hd (CHR ''}'' # s))"
    by (simp add: is_space_def)
  have sk: "skip_ws (b @ CHR ''}'' # s) = dropWhile is_space b @ CHR ''}'' # s"
    unfolding skip_ws_def by (rule space_append(2) [OF ns])
  have nb: "\<forall>c\<in>set (dropWhile is_space b). not_brace c"
    using assms by (auto dest: set_dropWhileD)
  have nb': "\<And>x. x \<in> set (dropWhile is_space b) \<Longrightarrow> not_brace x" using nb by auto
  have cb: "\<not> not_brace (CHR ''}'')" by (simp add: not_brace_def)
  have t: "takeWhile not_brace (dropWhile is_space b @ CHR ''}'' # s) = dropWhile is_space b"
    by (simp add: takeWhile_append2 nb' cb)
  have d: "dropWhile not_brace (dropWhile is_space b @ CHR ''}'' # s) = CHR ''}'' # s"
    by (simp add: dropWhile_append2 nb' cb)
  show ?thesis
    unfolding body_group_def by (simp add: lit_Cons lit_Nil sk t d)
qed

lemma pattern_match_entry:
  assumes "name_ok name" and "\<forall>c\<in>set sx. not_brace c" and "\<forall>c\<in>set sy. not_brace c"
    and "\<forall>c\<in>set sz. not_brace c"
  shows "pattern_match
           ([CHR ''('', CHR 0x22] @ name @ [CHR 0x22] @ ''->'' @ [CHR 0x0A] @ ''{{'' @ sx @ ''},''
            @ [CHR 0x0A] @ ''{'' @ sy @ ''},'' @ [CHR 0x0A] @ ''{'' @ sz @ ''}})'' @ rest)
         = Some ((name, dropWhile is_space sx, dropWhile is_space sy, dropWhile is_space sz), rest)"
proof -
  have sp: "is_space (CHR 0x0A)" "\<not> is_space (CHR ''-'')" "\<not> is_space (CHR ''{'')"
    "\<not> is_space (CHR '','')" "\<not> is_space (CHR ''}'')" "\<not> is_space (CHR '')'')"
    by (simp_all add: is_space_def)
  show ?thesis
    unfolding pattern_match_def
    by (simp add: lit_Cons lit_Nil name_group_ok [OF assms(1)] skip_ws_space skip_ws_other sp
        body_group_ok [OF assms(2)] body_group_ok [OF assms(3)] body_group_ok [OF assms(4)])
qed

lemma pattern_match_other: "c \<noteq> CHR ''('' \<Longrightarrow> pattern_match (c # s) = None"
  by (simp add: pattern_match_def lit_Cons)

lemma finditer_skip: "CHR ''('' \<notin> set pre \<Longrightarrow> finditer (pre @ s) = finditer s"
proof (induction pre)
  case Nil
  show ?case by simp
next
  case (Cons c pre)
  from Cons.prems have "c \<noteq> CHR ''(''" by auto
  then have "pattern_match (c # pre @ s) = None" by (rule pattern_match_other)
  then have "finditer ((c # pre) @ s) = finditer (pre @ s)"
    by (subst finditer.simps) simp
  with Cons show ?case by simp
qed

lemma finditer_Nil: "finditer [] = []"
  by (simp add: finditer.simps)

section \<open>The text written for a Dataset\<close>

lemma plain_char_safe:
  assumes "plain_char c"
  shows "not_brace c \<and> c \<noteq> CHR 0x5C \<and> c \<noteq> CHR ''(''"
proof -
  have "is_digit c \<or> is_sign c \<or> c = CHR ''.'' \<or> c = CHR ''E'' \<or> c = CHR ''e''
        \<or> c = CHR '','' \<or> is_space c"
    using assms by (auto simp: plain_char_def neutral_def)
  moreover have "\<not> is_digit (CHR ''{'')" "\<not> is_digit (CHR ''}'')" "\<not> is_digit (CHR 0x5C)"
    "\<not> is_digit (CHR ''('')"
    by (simp_all add: is_digit_def)
  ultimately show ?thesis
    by (auto simp: not_brace_def is_sign_def is_space_def)
qed

lemma set_join: "set (join s ts) \<subseteq> set s \<union> (\<Union>t\<in>set ts. set t)"
  by (induction s ts rule: join.induct) auto

lemma fmt_array_chars:
  assumes "\<forall>v\<in>set a. is_token (fmt ops v)" and "sep_ok (sep ops)"
  shows "\<forall>c\<in>set (fmt_array ops a). plain_char c"
proof -
  have tk: "\<forall>t\<in>set (map (fmt ops) a). \<forall>c\<in>set t. plain_char c"
    using assms(1) token_chars by (auto simp: plain_char_def)
  have sp: "\<forall>c\<in>set (sep ops). plain_char c"
    using assms(2) by (auto simp: sep_ok_def plain_char_def)
  have j: "\<And>ts. set ts \<subseteq> set (map (fmt ops) a) \<Longrightarrow> \<forall>c\<in>set (join (sep ops) ts). plain_char c"
  proof
    fix ts c
    assume ts: "set ts \<subseteq> set (map (fmt ops) a)" and "c \<in> set (join (sep ops) ts)"
    then have "c \<in> set (sep ops) \<or> (\<exists>t\<in>set ts. c \<in> set t)"
      using set_join [of "sep ops" ts] by auto
    with sp tk ts show "plain_char c" by blast
  qed
  have jj: "\<And>cs. (\<forall>ch\<in>set cs. set ch \<subseteq> set (map (fmt ops) a)) \<Longrightarrow>
      \<forall>c\<in>set (join [CHR '','', CHR 0x0A] (map (join (sep ops)) cs)). plain_char c"
  proof
    fix cs c
    assume cs: "\<forall>ch\<in>set cs. set ch \<subseteq> set (map (fmt ops) a)"
      and "c \<in> set (join [CHR '','', CHR 0x0A] (map (join (sep ops)) cs))"
    then have "c \<in> set [CHR '','', CHR 0x0A] \<or> (\<exists>l\<in>set (map (join (sep ops)) cs). c \<in> set l)"
      using set_join [of "[CHR '','', CHR 0x0A]" "map (join (sep ops)) cs"] by auto
    then show "plain_char c"
    proof
      assume "c \<in> set [CHR '','', CHR 0x0A]"
      then show ?thesis by (auto simp: plain_char_def is_space_def)
    next
      assume "\<exists>l\<in>set (map (join (sep ops)) cs). c \<in> set l"
      then obtain ch where "ch \<in> set cs" and "c \<in> set (join (sep ops) ch)" by auto
      with cs j [of ch] show ?thesis by blast
    qed
  qed
  have plain: "\<forall>c\<in>set (join (sep ops) (map (fmt ops) a)). plain_char c"
    by (rule j) simp
  have chunked: "\<And>n. \<forall>c\<in>set (join [CHR '','', CHR 0x0A]
      (map (join (sep ops)) (chunks n (map (fmt ops) a)))). plain_char c"
  proof (rule jj, rule ballI)
    fix n ch
    assume "ch \<in> set (chunks n (map (fmt ops) a))"
    then show "set ch \<subseteq> set (map (fmt ops) a)" by (rule set_chunks)
  qed
  show ?thesis
    unfolding fmt_array_def Let_def using plain chunked
    by (cases "columns ops") auto
qed

lemma parse_group:
  assumes "\<forall>v\<in>set a. is_token (fmt ops v)" and "sep_ok (sep ops)"
  shows "parse_array (dropWhile is_space (fmt_array ops a)) = map (\<lambda>v. float_of (fmt ops v)) a"
proof -
  let ?s = "fmt_array ops a"
  have "\<forall>c\<in>set (takeWhile is_space ?s). neutral c"
    using neutral_sep by (auto dest: set_takeWhileD)
  then have "findall (takeWhile is_space ?s @ dropWhile is_space ?s) = findall (dropWhile is_space ?s)"
    by (rule findall_neutral)
  then have "findall (dropWhile is_space ?s) = findall ?s" by simp
  also have "\<dots> = map (fmt ops) a" using assms by (rule findall_fmt_array)
  finally have "parse_array (dropWhile is_space ?s) = map float_of (map (fmt ops) a)"
    by (simp add: parse_array_def)
  also have "\<dots> = map (\<lambda>v. float_of (fmt ops v)) a"
    by (simp add: comp_def)
  finally show ?thesis .
qed

lemma reread_exact:
  "\<forall>v\<in>set a. fmt_exact ops v \<Longrightarrow> map (\<lambda>v. float_of (fmt ops v)) a = a"
  by (simp add: fmt_exact_def map_idI)

lemma arrays_exact_tokens: "arrays_exact ops w \<Longrightarrow> arrays_tokens ops w"
  by (simp add: arrays_exact_def arrays_tokens_def fmt_exact_def)

lemma reread_triple_exact: "arrays_exact ops w \<Longrightarrow> reread_triple ops w = w"
  by (simp add: arrays_exact_def reread_triple_def reread_exact)

lemma jlc_plain: "CHR 0x5C \<notin> set pre \<Longrightarrow>
  join_line_continuations (pre @ post) = pre @ join_line_continuations post"
  by (induction pre) auto

lemma jlc_name:
  assumes "\<forall>c\<in>set n. \<not> is_space c" and "post = [] \<or> \<not> is_space (hd post)"
  shows "join_line_continuations (n @ post) = n @ join_line_continuations post"
  using assms(1)
proof (induction n)
  case Nil
  show ?case by simp
next
  case (Cons c cs)
  have "takeWhile is_space (cs @ post) = []"
  proof (cases cs)
    case Nil
    then show ?thesis using assms(2) by (cases post) auto
  next
    case (Cons d ds)
    with Cons.prems show ?thesis by simp
  qed
  then show ?case using Cons by simp
qed

lemma entry_parts:
  assumes "arrays_tokens ops (written ops (the (map_of data name)))" and "sep_ok (sep ops)"
  shows "\<forall>c\<in>set (fmt_array ops (x_arr (written ops (the (map_of data name))))). plain_char c"
    and "\<forall>c\<in>set (fmt_array ops (y_arr (written ops (the (map_of data name))))). plain_char c"
    and "\<forall>c\<in>set (fmt_array ops (z_arr (written ops (the (map_of data name))))). plain_char c"
proof -
  let ?w = "written ops (the (map_of data name))"
  have "\<forall>v\<in>set (x_arr ?w). is_token (fmt ops v)" "\<forall>v\<in>set (y_arr ?w). is_token (fmt ops v)"
    "\<forall>v\<in>set (z_arr ?w). is_token (fmt ops v)"
    using assms(1) by (simp_all add: arrays_tokens_def)
  then show "\<forall>c\<in>set (fmt_array ops (x_arr ?w)). plain_char c"
    and "\<forall>c\<in>set (fmt_array ops (y_arr ?w)). plain_char c"
    and "\<forall>c\<in>set (fmt_array ops (z_arr ?w)). plain_char c"
    using assms(2) by (simp_all add: fmt_array_chars)
qed

lemma finditer_entry:
  assumes "name_ok name" and "arrays_tokens ops (written ops (the (map_of data name)))"
    and "sep_ok (sep ops)"
  shows "finditer (entry_of ops data name @ rest) = groups_of ops data name # finditer rest"
proof -
  have nb: "\<forall>c\<in>set (fmt_array ops (x_arr (written ops (the (map_of data name))))). not_brace c"
      "\<forall>c\<in>set (fmt_array ops (y_arr (written ops (the (map_of data name))))). not_brace c"
      "\<forall>c\<in>set (fmt_array ops (z_arr (written ops (the (map_of data name))))). not_brace c"
    using entry_parts [OF assms(2,3)] plain_char_safe by blast+
  have pm: "pattern_match (entry_of ops data name @ rest) = Some (groups_of ops data name, rest)"
    unfolding entry_of_text groups_of_def
    using pattern_match_entry [OF assms(1) nb, of rest] by simp
  have ne: "entry_of ops data name \<noteq> []" unfolding entry_of_text by simp
  show ?thesis
    by (subst finditer.simps) (simp add: pm ne)
qed

lemma jlc_entry:
  assumes "name_ok name" and "arrays_tokens ops (written ops (the (map_of data name)))"
    and "sep_ok (sep ops)"
  shows "join_line_continuations (entry_of ops data name @ rest)
         = entry_of ops data name @ join_line_continuations rest"
proof -
  let ?sx = "fmt_array ops (x_arr (written ops (the (map_of data name))))"
  let ?sy = "fmt_array ops (y_arr (written ops (the (map_of data name))))"
  let ?sz = "fmt_array ops (z_arr (written ops (the (map_of data name))))"
  let ?tail = "[CHR 0x22] @ ''->'' @ [CHR 0x0A] @ ''{{'' @ ?sx @ ''},'' @ [CHR 0x0A] @ ''{''
     @ ?sy @ ''},'' @ [CHR 0x0A] @ ''{'' @ ?sz @ ''}})''"
  have nbs: "CHR 0x5C \<notin> set ?sx" "CHR 0x5C \<notin> set ?sy" "CHR 0x5C \<notin> set ?sz"
    using entry_parts [OF assms(2,3)] plain_char_safe by blast+
  then have t: "CHR 0x5C \<notin> set ?tail" by simp
  have e: "entry_of ops data name @ rest = [CHR ''('', CHR 0x22] @ (name @ (?tail @ rest))"
    by (simp add: entry_of_text)
  have ns: "\<forall>c\<in>set name. \<not> is_space c" using assms(1) by (simp add: name_ok_def)
  have hd: "?tail @ rest = [] \<or> \<not> is_space (hd (?tail @ rest))" by (simp add: is_space_def)
  have "join_line_continuations ([CHR ''('', CHR 0x22] @ (name @ (?tail @ rest)))
      = [CHR ''('', CHR 0x22] @ join_line_continuations (name @ (?tail @ rest))"
    by (rule jlc_plain) simp
  also have "join_line_continuations (name @ (?tail @ rest))
      = name @ join_line_continuations (?tail @ rest)"
    using ns hd by (rule jlc_name)
  also have "join_line_continuations (?tail @ rest) = ?tail @ join_line_continuations rest"
    using t by (rule jlc_plain)
  finally show ?thesis unfolding e by (simp add: entry_of_text)
qed

lemma finditer_body:
  assumes "\<forall>n\<in>set names. name_ok n \<and> arrays_tokens ops (written ops (the (map_of data n)))"
    and "sep_ok (sep ops)"
  shows "finditer (body_text ops data names @ tail) = map (groups_of ops data) names @ finditer tail"
  using assms(1)
proof (induction names)
  case Nil
  show ?case by simp
next
  case (Cons n names)
  let ?sp = "if names \<noteq> [] then [CHR '','', CHR 0x0A] else [CHR 0x0A]"
  have n: "name_ok n" "arrays_tokens ops (written ops (the (map_of data n)))"
    using Cons.prems by simp_all
  have "finditer (entry_of ops data n @ (?sp @ body_text ops data names @ tail))
      = groups_of ops data n # finditer (?sp @ body_text ops data names @ tail)"
    using n assms(2) by (rule finditer_entry)
  also have "finditer (?sp @ body_text ops data names @ tail)
      = finditer (body_text ops data names @ tail)"
    by (rule finditer_skip) simp
  also have "\<dots> = map (groups_of ops data) names @ finditer tail"
    using Cons.IH Cons.prems by simp
  finally show ?case by simp
qed

lemma jlc_body:
  assumes "\<forall>n\<in>set names. name_ok n \<and> arrays_tokens ops (written ops (the (map_of data n)))"
    and "sep_ok (sep ops)"
  shows "join_line_continuations (body_text ops data names @ tail)
         = body_text ops data names @ join_line_continuations tail"
  using assms(1)
proof (induction names)
  case Nil
  show ?case by simp
next
  case (Cons n names)
  let ?sp = "if names \<noteq> [] then [CHR '','', CHR 0x0A] else [CHR 0x0A]"
  have n: "name_ok n" "arrays_tokens ops (written ops (the (map_of data n)))"
    using Cons.prems by simp_all
  have "join_line_continuations (entry_of ops data n @ (?sp @ body_text ops data names @ tail))
      = entry_of ops data n @ join_line_continuations (?sp @ body_text ops data names @ tail)"
    using n assms(2) by (rule jlc_entry)
  also have "join_line_continuations (?sp @ body_text ops data names @ tail)
      = ?sp @ join_line_continuations (body_text ops data names @ tail)"
    by (rule jlc_plain) simp
  also have "join_line_continuations (body_text ops data names @ tail)
      = body_text ops data names @ join_line_continuations tail"
    using Cons.IH Cons.prems by simp
  finally show ?case by simp
qed

lemma update_fresh: "k \<notin> fst ` set al \<Longrightarrow> AList.update k v al = al @ [(k, v)]"
  by (induction al) auto

lemma foldl_update_fresh:
  assumes "distinct (map fst kvs)" and "fst ` set acc \<inter> fst ` set kvs = {}"
  shows "foldl (\<lambda>results (name, a1, a2, a3).
                  AList.update name
                    \<lparr>x_arr = parse_array a1, y_arr = parse_array a2, z_arr = parse_array a3\<rparr>
                    results) acc kvs
         = acc @ map (\<lambda>(name, a1, a2, a3).
                        (name, \<lparr>x_arr = parse_array a1, y_arr = parse_array a2,
                                z_arr = parse_array a3\<rparr>)) kvs"
  using assms
proof (induction kvs arbitrary: acc)
  case Nil
  show ?case by simp
next
  case (Cons kv kvs)
  obtain name a1 a2 a3 where kv: "kv = (name, a1, a2, a3)" by (cases kv)
  let ?v = "\<lparr>x_arr = parse_array a1, y_arr = parse_array a2, z_arr = parse_array a3\<rparr>"
  from Cons.prems kv have fresh: "name \<notin> fst ` set acc" by auto
  have d: "distinct (map fst kvs)" using Cons.prems by simp
  have i: "fst ` set (acc @ [(name, ?v)]) \<inter> fst ` set kvs = {}"
    using Cons.prems kv by auto
  show ?case
    using Cons.IH [OF d i] by (simp add: kv update_fresh [OF fresh])
qed

lemma round_trip_dataset:
  assumes "distinct (map fst data)"
    and "\<forall>p\<in>set data. name_ok (fst p) \<and> arrays_tokens ops (written ops (snd p))"
    and "sep_ok (sep ops)" and "header_ok ops"
  shows "\<exists>out. to_data ops data = Inr out
           \<and> BPMDataParen_from_text out
               = map (\<lambda>n. (n, reread_triple ops (written ops (the (map_of data n))))) (list_bpms data)"
proof -
  define pre where "pre = (if has_header ops
           then ''{{'' @ concat (map rstrip (the (header_lines ops))) @ ''},'' @ [CHR 0x0A]
           else []) @ ''{''"
  define ft where "ft = ''}'' @ (if has_header ops then ''}'' else [])"
  define names where "names = list_bpms data"
  define out where "out = pre @ body_text ops data names @ ft"
  have td: "to_data ops data = Inr out"
    unfolding out_def pre_def ft_def names_def by (simp add: to_data_text)
  have pre1: "CHR ''('' \<notin> set pre" and pre2: "CHR 0x5C \<notin> set pre"
    using assms(4) unfolding pre_def header_ok_def by auto
  have ft1: "CHR ''('' \<notin> set ft" and ft2: "CHR 0x5C \<notin> set ft"
    unfolding ft_def by auto
  have ok: "\<forall>n\<in>set names. name_ok n \<and> arrays_tokens ops (written ops (the (map_of data n)))"
  proof
    fix n assume "n \<in> set names"
    then have "n \<in> fst ` set data" by (simp add: names_def list_bpms_def)
    then obtain t where m: "map_of data n = Some t"
      by (metis map_of_eq_None_iff not_None_eq)
    then have "(n, t) \<in> set data" by (rule map_of_SomeD)
    with assms(2) m show "name_ok n \<and> arrays_tokens ops (written ops (the (map_of data n)))"
      by fastforce
  qed
  have dn: "distinct names"
    using assms(1) by (simp add: names_def list_bpms_def)
  have j: "join_line_continuations out = out"
  proof -
    have "join_line_continuations ft = ft"
      using jlc_plain [OF ft2, of "[]"] by simp
    then have "join_line_continuations (body_text ops data names @ ft)
        = body_text ops data names @ ft"
      using jlc_body [OF ok assms(3), of ft] by simp
    then show ?thesis
      unfolding out_def using jlc_plain [OF pre2, of "body_text ops data names @ ft"] by simp
  qed
  have f: "finditer out = map (groups_of ops data) names"
  proof -
    have "finditer ft = []"
      using finditer_skip [OF ft1, of "[]"] by (simp add: finditer_Nil)
    then have "finditer (body_text ops data names @ ft) = map (groups_of ops data) names"
      using finditer_body [OF ok assms(3), of ft] by simp
    then show ?thesis
      unfolding out_def using finditer_skip [OF pre1, of "body_text ops data names @ ft"] by simp
  qed
  have keys: "map fst (map (groups_of ops data) names) = names"
    by (simp add: groups_of_def comp_def)
  have "BPMDataParen_from_text out
      = map (\<lambda>(name, a1, a2, a3).
               (name, \<lparr>x_arr = parse_array a1, y_arr = parse_array a2, z_arr = parse_array a3\<rparr>))
          (map (groups_of ops data) names)"
    unfolding BPMDataParen_from_text_def j f
    using foldl_update_fresh [of "map (groups_of ops data) names" "[]"] dn keys by simp
  also have "\<dots> = map (\<lambda>n. (n, reread_triple ops (written ops (the (map_of data n))))) names"
  proof (rule map_ext [THEN trans [OF map_map]], rule impI)
    fix n assume "n \<in> set names"
    with ok have ex: "arrays_tokens ops (written ops (the (map_of data n)))" by blast
    let ?w = "written ops (the (map_of data n))"
    have "parse_array (dropWhile is_space (fmt_array ops (x_arr ?w))) = map (\<lambda>v. float_of (fmt ops v)) (x_arr ?w)"
      "parse_array (dropWhile is_space (fmt_array ops (y_arr ?w))) = map (\<lambda>v. float_of (fmt ops v)) (y_arr ?w)"
      "parse_array (dropWhile is_space (fmt_array ops (z_arr ?w))) = map (\<lambda>v. float_of (fmt ops v)) (z_arr ?w)"
      using ex assms(3) by (simp_all add: arrays_tokens_def parse_group)
    then show "((\<lambda>(name, a1, a2, a3).
               (name, \<lparr>x_arr = parse_array a1, y_arr = parse_array a2, z_arr = parse_array a3\<rparr>))
           \<circ> groups_of ops data) n = (n, reread_triple ops (written ops (the (map_of data n))))"
      by (simp add: groups_of_def reread_triple_def)
  qed
  finally have "BPMDataParen_from_text out
      = map (\<lambda>n. (n, reread_triple ops (written ops (the (map_of data n))))) (list_bpms data)"
    unfolding names_def .
  with td show ?thesis by blast
qed

section \<open>Row format to paren format and back\<close>

lemma map_of_map_key:
  "map_of (map (\<lambda>n. (n, f n)) ns) k = (if k \<in> set ns then Some (f k) else None)"
  by (induction ns) auto

lemma row_round_trip:
  assumes "\<forall>n\<in>fst ` set (BPMDataSDDS_from_text text). CHR 0x22 \<notin> set n"
    and "\<forall>p\<in>set (BPMDataSDDS_from_text text). arrays_tokens ops (written ops (snd p))"
    and "sep_ok (sep ops)" and "header_ok ops"
  shows "round_trip ops text
         = Inr (map (\<lambda>n. (n, reread_triple ops
                                (written ops (the (map_of (BPMDataSDDS_from_text text) n)))))
                  (list_bpms (BPMDataSDDS_from_text text)))"
proof -
  define D where "D = BPMDataSDDS_from_text text"
  have keys: "fst ` set D = fst ` set (accumulate text)"
    using from_text_keys [of "text"] unfolding D_def by (metis list.set_map)
  have d: "distinct (map fst D)"
    unfolding D_def by (simp add: from_text_keys accumulate_distinct)
  have ok: "\<forall>p\<in>set D. name_ok (fst p) \<and> arrays_tokens ops (written ops (snd p))"
  proof
    fix p assume p: "p \<in> set D"
    then have "fst p \<in> fst ` set (accumulate text)" using keys by blast
    with accumulate_names [of "text"]
    have "fst p \<noteq> [] \<and> (\<forall>c\<in>set (fst p). \<not> is_space c)" by blast
    moreover have "CHR 0x22 \<notin> set (fst p)" using assms(1) p unfolding D_def by blast
    ultimately have "name_ok (fst p)" by (simp add: name_ok_def)
    moreover have "arrays_tokens ops (written ops (snd p))" using assms(2) p unfolding D_def by blast
    ultimately show "name_ok (fst p) \<and> arrays_tokens ops (written ops (snd p))" by blast
  qed
  from round_trip_dataset [OF d ok assms(3,4)] obtain out where
    "to_data ops D = Inr out" and
    "BPMDataParen_from_text out
       = map (\<lambda>n. (n, reread_triple ops (written ops (the (map_of D n))))) (list_bpms D)"
    by blast
  then show ?thesis unfolding D_def round_trip_def by simp
qed

lemma round_trip_arrays:
  assumes "distinct (map fst data)" and "p \<in> set data"
  shows "\<exists>t'. map_of (map (\<lambda>n. (n, reread_triple ops (written ops (the (map_of data n)))))
                       (list_bpms data)) (fst p)
               = Some t'
     \<and> x_arr t' = map (\<lambda>v. float_of (fmt ops v)) (drop 1 (map (\<lambda>v. v * scale ops) (x_arr (snd p))))
     \<and> length (x_arr t') = length (x_arr (snd p)) - 1
     \<and> y_arr t' = map (\<lambda>v. float_of (fmt ops v)) (drop 1 (map (\<lambda>v. v * scale ops) (y_arr (snd p))))
     \<and> length (y_arr t') = length (y_arr (snd p)) - 1
     \<and> z_arr t' = replicate (length (x_arr (snd p)) - 1)
                     (float_of (fmt ops (if include_z ops then z_fill ops * scale ops else 0)))
     \<and> (arrays_exact ops (written ops (snd p)) \<longrightarrow>
          x_arr t' = drop 1 (map (\<lambda>v. v * scale ops) (x_arr (snd p)))
          \<and> y_arr t' = drop 1 (map (\<lambda>v. v * scale ops) (y_arr (snd p)))
          \<and> z_arr t' = replicate (length (x_arr (snd p)) - 1)
                          (if include_z ops then z_fill ops * scale ops else 0))"
proof -
  define t' where "t' = reread_triple ops (written ops (snd p))"
  have m: "map_of data (fst p) = Some (snd p)"
    using assms by (cases p) (simp add: map_of_is_SomeI)
  have k: "fst p \<in> set (list_bpms data)"
    using assms(2) by (simp add: list_bpms_def)
  have w: "x_arr (written ops (snd p)) = drop 1 (map (\<lambda>v. v * scale ops) (x_arr (snd p)))"
    "y_arr (written ops (snd p)) = drop 1 (map (\<lambda>v. v * scale ops) (y_arr (snd p)))"
    "z_arr (written ops (snd p)) = replicate (length (x_arr (snd p)) - 1)
                     (if include_z ops then z_fill ops * scale ops else 0)"
    by (simp_all add: written_def scaled_def z_of_const)
  have 1: "map_of (map (\<lambda>n. (n, reread_triple ops (written ops (the (map_of data n)))))
                    (list_bpms data)) (fst p) = Some t'"
    using k m by (simp add: map_of_map_key t'_def)
  have 2: "x_arr t' = map (\<lambda>v. float_of (fmt ops v)) (drop 1 (map (\<lambda>v. v * scale ops) (x_arr (snd p))))"
    unfolding t'_def reread_triple_def w by simp
  have 3: "length (x_arr t') = length (x_arr (snd p)) - 1"
    unfolding 2 by simp
  have 4: "y_arr t' = map (\<lambda>v. float_of (fmt ops v)) (drop 1 (map (\<lambda>v. v * scale ops) (y_arr (snd p))))"
    unfolding t'_def reread_triple_def w by simp
  have 5: "length (y_arr t') = length (y_arr (snd p)) - 1"
    unfolding 4 by simp
  have 6: "z_arr t' = replicate (length (x_arr (snd p)) - 1)
                     (float_of (fmt ops (if include_z ops then z_fill ops * scale ops else 0)))"
    unfolding t'_def reread_triple_def w by simp
  have 7: "arrays_exact ops (written ops (snd p)) \<longrightarrow>
          x_arr t' = drop 1 (map (\<lambda>v. v * scale ops) (x_arr (snd p)))
          \<and> y_arr t' = drop 1 (map (\<lambda>v. v * scale ops) (y_arr (snd p)))
          \<and> z_arr t' = replicate (length (x_arr (snd p)) - 1)
                          (if include_z ops then z_fill ops * scale ops else 0)"
  proof
    assume "arrays_exact ops (written ops (snd p))"
    then have "t' = written ops (snd p)" unfolding t'_def by (rule reread_triple_exact)
    then show "x_arr t' = drop 1 (map (\<lambda>v. v * scale ops) (x_arr (snd p)))
          \<and> y_arr t' = drop 1 (map (\<lambda>v. v * scale ops) (y_arr (snd p)))
          \<and> z_arr t' = replicate (length (x_arr (snd p)) - 1)
                          (if include_z ops then z_fill ops * scale ops else 0)"
      using w by simp
  qed
  from 1 2 3 4 5 6 7 show ?thesis by blast
qed

text \<open>
  Claim C1, as the code has it. Take a Dataset read from a row-format text whose BPM
  names hold no double quote, a separator of commas and whitespace, a header without
  opening parenthesis and backslash, and a number format that renders every written
  value as one numeric token. Then the text written by the paren writer is read by the
  paren reader as a Dataset with the same BPM names, sorted; for each BPM \<^verbatim>\<open>x\<close> and \<^verbatim>\<open>y\<close>
  are the stored arrays scaled, without the first sample, each value \<^verbatim>\<open>v\<close> read back as
  \<^verbatim>\<open>float(fmt.format(v))\<close>, and \<^verbatim>\<open>z\<close> is constant, of the length of the new \<^verbatim>\<open>x\<close>, at what
  is read back of the fill value times the scale factor when \<^verbatim>\<open>z\<close> is included and of
  zero when it is not. For a BPM whose written values the number format renders
  exactly, the arrays read back are the scaled arrays themselves and the constant is
  the fill value times the scale factor, or zero.
\<close>

theorem C1_round_trip:
  assumes "\<forall>n\<in>fst ` set (BPMDataSDDS_from_text text). CHR 0x22 \<notin> set n"
    and "\<forall>p\<in>set (BPMDataSDDS_from_text text). arrays_tokens ops (written ops (snd p))"
    and "sep_ok (sep ops)" and "header_ok ops"
  shows "\<exists>res. round_trip ops text = Inr res
     \<and> res = map (\<lambda>n. (n, reread_triple ops
                             (written ops (the (map_of (BPMDataSDDS_from_text text) n)))))
                (list_bpms (BPMDataSDDS_from_text text))
     \<and> set (map fst res) = set (map fst (BPMDataSDDS_from_text text))
     \<and> (\<forall>p\<in>set (BPMDataSDDS_from_text text).
           \<exists>t'. map_of res (fst p) = Some t'
             \<and> x_arr t' = map (\<lambda>v. float_of (fmt ops v))
                             (drop 1 (map (\<lambda>v. v * scale ops) (x_arr (snd p))))
             \<and> length (x_arr t') = length (x_arr (snd p)) - 1
             \<and> y_arr t' = map (\<lambda>v. float_of (fmt ops v))
                             (drop 1 (map (\<lambda>v. v * scale ops) (y_arr (snd p))))
             \<and> length (y_arr t') = length (y_arr (snd p)) - 1
             \<and> z_arr t' = replicate (length (x_arr (snd p)) - 1)
                             (float_of (fmt ops (if include_z ops then z_fill ops * scale ops else 0)))
             \<and> (arrays_exact ops (written ops (snd p)) \<longrightarrow>
                  x_arr t' = drop 1 (map (\<lambda>v. v * scale ops) (x_arr (snd p)))
                  \<and> y_arr t' = drop 1 (map (\<lambda>v. v * scale ops) (y_arr (snd p)))
                  \<and> z_arr t' = replicate (length (x_arr (snd p)) - 1)
                                  (if include_z ops then z_fill ops * scale ops else 0)))"
proof -
  define D where "D = BPMDataSDDS_from_text text"
  define res where
    "res = map (\<lambda>n. (n, reread_triple ops (written ops (the (map_of D n))))) (list_bpms D)"
  have rt: "round_trip ops text = Inr res"
    using row_round_trip [OF assms] unfolding D_def res_def .
  have d: "distinct (map fst D)"
    unfolding D_def by (simp add: from_text_keys accumulate_distinct)
  have ks: "set (map fst res) = set (map fst D)"
    unfolding res_def by (simp add: list_bpms_def comp_def)
  have ar: "\<forall>p\<in>set D.
           \<exists>t'. map_of res (fst p) = Some t'
             \<and> x_arr t' = map (\<lambda>v. float_of (fmt ops v))
                             (drop 1 (map (\<lambda>v. v * scale ops) (x_arr (snd p))))
             \<and> length (x_arr t') = length (x_arr (snd p)) - 1
             \<and> y_arr t' = map (\<lambda>v. float_of (fmt ops v))
                             (drop 1 (map (\<lambda>v. v * scale ops) (y_arr (snd p))))
             \<and> length (y_arr t') = length (y_arr (snd p)) - 1
             \<and> z_arr t' = replicate (length (x_arr (snd p)) - 1)
                             (float_of (fmt ops (if include_z ops then z_fill ops * scale ops else 0)))
             \<and> (arrays_exact ops (written ops (snd p)) \<longrightarrow>
                  x_arr t' = drop 1 (map (\<lambda>v. v * scale ops) (x_arr (snd p)))
                  \<and> y_arr t' = drop 1 (map (\<lambda>v. v * scale ops) (y_arr (snd p)))
                  \<and> z_arr t' = replicate (length (x_arr (snd p)) - 1)
                                  (if include_z ops then z_fill ops * scale ops else 0))"
  proof
    fix p assume "p \<in> set D"
    from round_trip_arrays [OF d this, of ops]
    show "\<exists>t'. map_of res (fst p) = Some t'
             \<and> x_arr t' = map (\<lambda>v. float_of (fmt ops v))
                             (drop 1 (map (\<lambda>v. v * scale ops) (x_arr (snd p))))
             \<and> length (x_arr t') = length (x_arr (snd p)) - 1
             \<and> y_arr t' = map (\<lambda>v. float_of (fmt ops v))
                             (drop 1 (map (\<lambda>v. v * scale ops) (y_arr (snd p))))
             \<and> length (y_arr t') = length (y_arr (snd p)) - 1
             \<and> z_arr t' = replicate (length (x_arr (snd p)) - 1)
                             (float_of (fmt ops (if include_z ops then z_fill ops * scale ops else 0)))
             \<and> (arrays_exact ops (written ops (snd p)) \<longrightarrow>
                  x_arr t' = drop 1 (map (\<lambda>v. v * scale ops) (x_arr (snd p)))
                  \<and> y_arr t' = drop 1 (map (\<lambda>v. v * scale ops) (y_arr (snd p)))
                  \<and> z_arr t' = replicate (length (x_arr (snd p)) - 1)
                                  (if include_z ops then z_fill ops * scale ops else 0))"
      unfolding res_def .
  qed
  have "round_trip ops text = Inr res
     \<and> res = map (\<lambda>n. (n, reread_triple ops (written ops (the (map_of D n))))) (list_bpms D)
     \<and> set (map fst res) = set (map fst D)
     \<and> (\<forall>p\<in>set D.
           \<exists>t'. map_of res (fst p) = Some t'
             \<and> x_arr t' = map (\<lambda>v. float_of (fmt ops v))
                             (drop 1 (map (\<lambda>v. v * scale ops) (x_arr (snd p))))
             \<and> length (x_arr t') = length (x_arr (snd p)) - 1
             \<and> y_arr t' = map (\<lambda>v. float_of (fmt ops v))
                             (drop 1 (map (\<lambda>v. v * scale ops) (y_arr (snd p))))
             \<and> length (y_arr t') = length (y_arr (snd p)) - 1
             \<and> z_arr t' = replicate (length (x_arr (snd p)) - 1)
                             (float_of (fmt ops (if include_z ops then z_fill ops * scale ops else 0)))
             \<and> (arrays_exact ops (written ops (snd p)) \<longrightarrow>
                  x_arr t' = drop 1 (map (\<lambda>v. v * scale ops) (x_arr (snd p)))
                  \<and> y_arr t' = drop 1 (map (\<lambda>v. v * scale ops) (y_arr (snd p)))
                  \<and> z_arr t' = replicate (length (x_arr (snd p)) - 1)
                                  (if include_z ops then z_fill ops * scale ops else 0)))"
    by (rule conjI [OF rt conjI [OF res_def conjI [OF ks ar]]])
  then show ?thesis unfolding D_def by (rule exI [where x = res])
qed

lemma digit_tokens:
  "is_token ''0''" "is_token ''2''" "is_token ''4''" "is_token ''6''" "is_token ''8''"
  unfolding is_token_def by code_simp+

lemma digit_values:
  "float_of ''0'' = 0" "float_of ''2'' = 2" "float_of ''4'' = 4" "float_of ''6'' = 6"
  "float_of ''8'' = 8"
  by (simp_all add: float_of_def opt_sign_def is_sign_def is_digit_def digits_val_def
      digit_val_def)

lemma fmt_digit_values:
  "fmt_digit 0 = ''0''" "fmt_digit 2 = ''2''" "fmt_digit 4 = ''4''" "fmt_digit 6 = ''6''"
  "fmt_digit 8 = ''8''"
  by (simp_all add: fmt_digit_def)

lemma fmt_0f_values:
  "fmt_0f 2 = ''2''" "fmt_0f 4 = ''4''" "fmt_0f 6 = ''6''" "fmt_0f 8 = ''8''"
  "fmt_0f (12 / 5) = ''2''"
  by (simp_all add: fmt_0f_def Let_def)

text \<open>
  A round trip with a number format that is not exact: with fill value 1.2 and scale
  factor 2 the writer formats 2.4 as \<^verbatim>\<open>2\<close>, and the array \<^verbatim>\<open>z\<close> that comes back is
  constant at 2.
\<close>

theorem C1_round_trip_witness:
  "round_trip \<lparr>include_z = True, fmt = fmt_0f, sep = '','', columns = Some 6, z_fill = 6 / 5,
               scale = 2, header_lines = Some [''hdr '']\<rparr>
     (''0 A 1 2 4'' @ [CHR 0x0A] @ ''1 A 0 1 3'')
   = Inr [(''A'', \<lparr>x_arr = [4, 8], y_arr = [2, 6], z_arr = [2, 2]\<rparr>)]"
proof -
  define ops where "ops = \<lparr>include_z = True, fmt = fmt_0f, sep = '','', columns = Some 6,
    z_fill = 6 / 5, scale = 2, header_lines = Some [''hdr '']\<rparr>"
  define T where "T = ''0 A 1 2 4'' @ [CHR 0x0A] @ ''1 A 0 1 3''"
  define t where "t = \<lparr>x_arr = [1, 2, 4], y_arr = [0, 1, 3], z_arr = [0, 0, 0::real]\<rparr>"
  have rd: "BPMDataSDDS_from_text T = [(''A'', t)]"
    unfolding T_def t_def by code_simp
  have w: "written ops t = \<lparr>x_arr = [4, 8], y_arr = [2, 6], z_arr = [12 / 5, 12 / 5]\<rparr>"
    by (simp add: written_def scaled_def z_of_def ops_def t_def numeral_3_eq_3)
  have f: "fmt ops = fmt_0f" by (simp add: ops_def)
  have q: "\<forall>n\<in>fst ` set (BPMDataSDDS_from_text T). CHR 0x22 \<notin> set n"
    unfolding rd by simp
  have ex: "\<forall>p\<in>set (BPMDataSDDS_from_text T). arrays_tokens ops (written ops (snd p))"
  proof -
    have "arrays_tokens ops (written ops t)"
      unfolding w arrays_tokens_def f
      by (simp add: fmt_0f_values digit_tokens)
    then show ?thesis unfolding rd by simp
  qed
  have rr: "reread_triple ops (written ops t) = \<lparr>x_arr = [4, 8], y_arr = [2, 6], z_arr = [2, 2]\<rparr>"
    unfolding w reread_triple_def f
    by (simp add: fmt_0f_values digit_values)
  have sp: "sep_ok (sep ops)" by (simp add: sep_ok_def ops_def)
  have ho: "header_ok ops"
    by (simp add: header_ok_def has_header_def ops_def rstrip_def is_space_def)
  from C1_round_trip [OF q ex sp ho] obtain res where
    r: "round_trip ops T = Inr res" and
    e: "res = map (\<lambda>n. (n, reread_triple ops
                             (written ops (the (map_of (BPMDataSDDS_from_text T) n)))))
                (list_bpms (BPMDataSDDS_from_text T))"
    by blast
  have "res = [(''A'', \<lparr>x_arr = [4, 8], y_arr = [2, 6], z_arr = [2, 2]\<rparr>)]"
    unfolding e rd by (simp add: list_bpms_def rr)
  with r show ?thesis unfolding ops_def T_def by simp
qed

text \<open>
  The claim as stated fails when the scale factor is not 1: with fill value 3 and scale
  factor 2 the array \<^verbatim>\<open>z\<close> that comes back is constant at 6, not at 3.
\<close>

theorem C1_z_scaled_counterexample:
  "round_trip \<lparr>include_z = True, fmt = fmt_digit, sep = '','', columns = Some 6, z_fill = 3,
               scale = 2, header_lines = None\<rparr> ''0 A 1 2 4''
   = Inr [(''A'', \<lparr>x_arr = [4, 8], y_arr = [0, 0], z_arr = [6, 6]\<rparr>)]
   \<and> [6, 6] \<noteq> replicate 2 (3::real)"
proof -
  define ops where "ops = \<lparr>include_z = True, fmt = fmt_digit, sep = '','', columns = Some 6,
    z_fill = 3, scale = 2, header_lines = None\<rparr>"
  define t where "t = \<lparr>x_arr = [1, 2, 4], y_arr = [0, 0, 0], z_arr = [0, 0, 0::real]\<rparr>"
  have rd: "BPMDataSDDS_from_text ''0 A 1 2 4'' = [(''A'', t)]"
    unfolding t_def by code_simp
  have w: "written ops t = \<lparr>x_arr = [4, 8], y_arr = [0, 0], z_arr = [6, 6]\<rparr>"
    by (simp add: written_def scaled_def z_of_def ops_def t_def)
  have f: "fmt ops = fmt_digit" by (simp add: ops_def)
  have q: "\<forall>n\<in>fst ` set (BPMDataSDDS_from_text ''0 A 1 2 4''). CHR 0x22 \<notin> set n"
    unfolding rd by simp
  have ex: "\<forall>p\<in>set (BPMDataSDDS_from_text ''0 A 1 2 4''). arrays_tokens ops (written ops (snd p))"
  proof -
    have "arrays_tokens ops (written ops t)"
      unfolding w arrays_tokens_def f
      by (simp add: fmt_digit_values digit_tokens)
    then show ?thesis unfolding rd by simp
  qed
  have rr: "reread_triple ops (written ops t) = \<lparr>x_arr = [4, 8], y_arr = [0, 0], z_arr = [6, 6]\<rparr>"
    unfolding w reread_triple_def f
    by (simp add: fmt_digit_values digit_values)
  have sp: "sep_ok (sep ops)" by (simp add: sep_ok_def ops_def)
  have ho: "header_ok ops" by (simp add: header_ok_def has_header_def ops_def)
  have "round_trip ops ''0 A 1 2 4''
      = Inr [(''A'', \<lparr>x_arr = [4, 8], y_arr = [0, 0], z_arr = [6, 6]\<rparr>)]"
    using row_round_trip [OF q ex sp ho] unfolding rd by (simp add: list_bpms_def rr)
  then show ?thesis unfolding ops_def by (simp add: numeral_2_eq_2)
qed

text \<open>
  Without \<^verbatim>\<open>z\<close> the array that comes back is zero, whatever the fill value; and a BPM
  whose name holds a double quote is written but not read back.
\<close>

lemma round_trip_without_z:
  "round_trip \<lparr>include_z = False, fmt = fmt_digit, sep = '','', columns = Some 6, z_fill = 3,
               scale = 2, header_lines = None\<rparr> ''0 A 1 2 4''
   = Inr [(''A'', \<lparr>x_arr = [4, 8], y_arr = [0, 0], z_arr = [0, 0]\<rparr>)]"
proof -
  define ops where "ops = \<lparr>include_z = False, fmt = fmt_digit, sep = '','', columns = Some 6,
    z_fill = 3, scale = 2, header_lines = None\<rparr>"
  define t where "t = \<lparr>x_arr = [1, 2, 4], y_arr = [0, 0, 0], z_arr = [0, 0, 0::real]\<rparr>"
  have rd: "BPMDataSDDS_from_text ''0 A 1 2 4'' = [(''A'', t)]"
    unfolding t_def by code_simp
  have w: "written ops t = \<lparr>x_arr = [4, 8], y_arr = [0, 0], z_arr = [0, 0]\<rparr>"
    by (simp add: written_def scaled_def z_of_def ops_def t_def)
  have f: "fmt ops = fmt_digit" by (simp add: ops_def)
  have q: "\<forall>n\<in>fst ` set (BPMDataSDDS_from_text ''0 A 1 2 4''). CHR 0x22 \<notin> set n"
    unfolding rd by simp
  have ex: "\<forall>p\<in>set (BPMDataSDDS_from_text ''0 A 1 2 4''). arrays_tokens ops (written ops (snd p))"
  proof -
    have "arrays_tokens ops (written ops t)"
      unfolding w arrays_tokens_def f
      by (simp add: fmt_digit_values digit_tokens)
    then show ?thesis unfolding rd by simp
  qed
  have rr: "reread_triple ops (written ops t) = \<lparr>x_arr = [4, 8], y_arr = [0, 0], z_arr = [0, 0]\<rparr>"
    unfolding w reread_triple_def f
    by (simp add: fmt_digit_values digit_values)
  have sp: "sep_ok (sep ops)" by (simp add: sep_ok_def ops_def)
  have ho: "header_ok ops" by (simp add: header_ok_def has_header_def ops_def)
  show ?thesis
    using row_round_trip [OF q ex sp ho] unfolding rd ops_def [symmetric]
    by (simp add: list_bpms_def rr)
qed

lemma round_trip_quote_in_name:
  "round_trip \<lparr>include_z = True, fmt = fmt_digit, sep = '','', columns = Some 6, z_fill = 3,
               scale = 2, header_lines = None\<rparr> (''0 A'' @ [CHR 0x22] @ ''B 1 2 4'')
   = Inr []"
proof -
  define ops where "ops = \<lparr>include_z = True, fmt = fmt_digit, sep = '','', columns = Some 6,
    z_fill = 3, scale = 2, header_lines = None\<rparr>"
  define name where "name = ''A'' @ [CHR 0x22] @ ''B''"
  define t where "t = \<lparr>x_arr = [1, 2, 4], y_arr = [0, 0, 0], z_arr = [0, 0, 0::real]\<rparr>"
  have rd: "BPMDataSDDS_from_text (''0 A'' @ [CHR 0x22] @ ''B 1 2 4'') = [(name, t)]"
    unfolding t_def name_def by code_simp
  have m: "map_of [(name, t)] name = Some t" by simp
  have fa: "fmt_array ops [4, 8] = ''4,8''" "fmt_array ops [0, 0] = ''0,0''"
    "fmt_array ops [6, 6] = ''6,6''"
    by (simp_all add: fmt_array_def ops_def chunks_short fmt_digit_values)
  have td: "to_data ops [(name, t)]
      = Inr (''{('' @ [CHR 0x22] @ ''A'' @ [CHR 0x22] @ ''B'' @ [CHR 0x22] @ ''->'' @ [CHR 0x0A]
             @ ''{{4,8},'' @ [CHR 0x0A] @ ''{0,0},'' @ [CHR 0x0A] @ ''{6,6}})'' @ [CHR 0x0A] @ ''}'')"
    by (subst to_data_single [OF m])
       (simp add: has_header_def entry_text_def scaled_def z_of_def t_def fa [unfolded ops_def]
          ops_def name_def)
  have j: "join_line_continuations
        (''{('' @ [CHR 0x22] @ ''A'' @ [CHR 0x22] @ ''B'' @ [CHR 0x22] @ ''->'' @ [CHR 0x0A]
             @ ''{{4,8},'' @ [CHR 0x0A] @ ''{0,0},'' @ [CHR 0x0A] @ ''{6,6}})'' @ [CHR 0x0A] @ ''}'')
      = ''{('' @ [CHR 0x22] @ ''A'' @ [CHR 0x22] @ ''B'' @ [CHR 0x22] @ ''->'' @ [CHR 0x0A]
             @ ''{{4,8},'' @ [CHR 0x0A] @ ''{0,0},'' @ [CHR 0x0A] @ ''{6,6}})'' @ [CHR 0x0A] @ ''}''"
    by code_simp
  have f: "finditer
        (''{('' @ [CHR 0x22] @ ''A'' @ [CHR 0x22] @ ''B'' @ [CHR 0x22] @ ''->'' @ [CHR 0x0A]
             @ ''{{4,8},'' @ [CHR 0x0A] @ ''{0,0},'' @ [CHR 0x0A] @ ''{6,6}})'' @ [CHR 0x0A] @ ''}'')
      = []"
    by code_simp
  show ?thesis
    unfolding round_trip_def rd ops_def [symmetric] td
    by (simp only: sum.case BPMDataParen_from_text_def j f foldl_Nil)
qed

end
